theory Spec2Isabelle
  imports Main "HOL-Library.AList" "HOL-Library.Multiset"
begin

section \<open>Data model of \<open>LifetimeController.tsx\<close>\<close>

text \<open>
  The source is roblox-ts: a \<open>Map\<close> is a Lua table. The program reads a table through
  \<open>get\<close>, changes it through \<open>set\<close> and \<open>delete\<close>, and walks it with \<open>pairs\<close>
  (\<open>forEach\<close>, \<open>for ... of\<close>), which yields every entry once, in an order the language
  leaves open. A table is stored as an association list with \<open>map_of\<close> (\<open>get\<close>),
  \<open>AList.update\<close> (\<open>set\<close>) and \<open>AList.delete\<close> (\<open>delete\<close>); the order of that list
  is storage only and means nothing to the program.

  \<open>lua_pairs order xs\<close> is the sequence in which a walk yields the entries of the table
  \<open>xs\<close>: the runtime's choice \<open>order xs\<close> whenever that is a rearrangement of \<open>xs\<close>.
  The choice is a parameter, so a walk can yield any rearrangement and always yields one.
\<close>

definition lua_pairs :: "('a list \<Rightarrow> 'a list) \<Rightarrow> 'a list \<Rightarrow> 'a list" where
  "lua_pairs order xs = (if mset (order xs) = mset xs then order xs else xs)"

text \<open>A logical key is \<open>string | number\<close>; numbers are restricted to integers here.\<close>

datatype key = StringKey string | NumberKey int

text \<open>
  Modelled from the spec: \<open>HttpService.GenerateGUID()\<close> is an engine service that is
  assumed to supply a globally unique string per call. The n-th identifier it hands out
  is represented by the number n, and the controller state counts the calls made so far.
\<close>

type_synonym uid = nat

type_synonym addr = nat

text \<open>The value stored under the \<open>LifetimeInternal\<close> marker: the reference \<open>this\<close>.\<close>

datatype controller_ref = This

text \<open>
  \<open>PropsType\<close>: a props table. The two marker keys are made by \<open>newproxy()\<close>, so only
  this module can write them; they are two typed slots. Every other entry of the table is
  kept in \<open>own_fields\<close>.
\<close>

record PropsType =
  LifetimeInternal :: "controller_ref option"
  UIDInternal :: "uid option"
  own_fields :: "string \<rightharpoonup> string"

text \<open>
  What an element holds under \<open>props\<close>: no such member at all, a member that is
  null or undefined, or a reference to a props table that lives in the store.
\<close>

datatype props_slot = NoProps | NilProps | PropsAt addr

record ReactElement =
  elem_type :: string
  elem_props :: props_slot

text \<open>
  Props tables are shared mutable objects: the caller who built an element keeps the
  reference to its props table. The store maps addresses to tables; \<open>next_addr\<close> is the
  next address an allocation returns.
\<close>

record store =
  objects :: "addr \<Rightarrow> PropsType"
  next_addr :: addr

type_synonym ReactChildren = "(key \<times> ReactElement) list"

record ComponentState =
  Key :: key
  Element :: ReactElement
  UID :: uid

text \<open>
  A callback \<open>() => void\<close> is named by a handle; \<open>DefaultUpdater\<close> is the initial
  \<open>() => {}\<close>.
\<close>

datatype updater = DefaultUpdater | Callback nat

text \<open>
  The class \<open>LifetimeController\<close>. Two more components make the effects on the
  environment explicit: \<open>GeneratedGUIDs\<close> counts the calls of \<open>GenerateGUID\<close>, and
  \<open>UpdaterCalls\<close> logs every invocation \<open>this.Updater()\<close> with the callback invoked.
\<close>

record LifetimeController =
  CanRecover :: bool
  AllComponents :: "(uid \<times> ComponentState) list"
  CurrentRendered :: "(key \<times> uid) list"
  Updater :: updater
  GeneratedGUIDs :: nat
  UpdaterCalls :: "updater list"

definition new_LifetimeController :: LifetimeController where
  "new_LifetimeController =
     \<lparr>CanRecover = False, AllComponents = [], CurrentRendered = [],
      Updater = DefaultUpdater, GeneratedGUIDs = 0, UpdaterCalls = []\<rparr>"

text \<open>The runtime's orders for the three kinds of table that the controller walks.\<close>

record traversal =
  components_order :: "(uid \<times> ComponentState) list \<Rightarrow> (uid \<times> ComponentState) list"
  rendered_order :: "(key \<times> uid) list \<Rightarrow> (key \<times> uid) list"
  children_order :: "ReactChildren \<Rightarrow> ReactChildren"

section \<open>Methods of the controller\<close>

definition SetUpdater :: "LifetimeController \<Rightarrow> updater \<Rightarrow> LifetimeController" where
  "SetUpdater c updater = c\<lparr>Updater := updater\<rparr>"

definition GetComponent :: "LifetimeController \<Rightarrow> uid \<Rightarrow> ComponentState option" where
  "GetComponent c uid = map_of (AllComponents c) uid"

definition GetRendered :: "LifetimeController \<Rightarrow> ComponentState \<Rightarrow> key option" where
  "GetRendered c component =
     (case map_of (CurrentRendered c) (Key component) of
        None \<Rightarrow> None
      | Some renderKey \<Rightarrow> if renderKey \<noteq> UID component then None else Some (Key component))"

definition IsComponentActive :: "LifetimeController \<Rightarrow> uid \<Rightarrow> bool" where
  "IsComponentActive c uid =
     (case GetComponent c uid of
        None \<Rightarrow> False
      | Some component \<Rightarrow>
          (case GetRendered c component of
             None \<Rightarrow> False
           | Some render \<Rightarrow> map_of (CurrentRendered c) render = Some uid))"

definition RemoveRenderedByUID :: "LifetimeController \<Rightarrow> uid \<Rightarrow> LifetimeController" where
  "RemoveRenderedByUID c uid =
     (case GetComponent c uid of
        None \<Rightarrow> c
      | Some component \<Rightarrow>
          if map_of (CurrentRendered c) (Key component) = Some uid
          then c\<lparr>CurrentRendered := AList.delete (Key component) (CurrentRendered c)\<rparr>
          else c)"

definition UnlistComponent :: "LifetimeController \<Rightarrow> uid \<Rightarrow> LifetimeController" where
  "UnlistComponent c uid =
     (if IsComponentActive c uid then c
      else
        let c1 = RemoveRenderedByUID c uid;
            c2 = c1\<lparr>AllComponents := AList.delete uid (AllComponents c1)\<rparr>
        in c2\<lparr>UpdaterCalls := UpdaterCalls c2 @ [Updater c2]\<rparr>)"

definition RegistryComponent ::
  "LifetimeController \<Rightarrow> ReactElement \<Rightarrow> key \<Rightarrow> LifetimeController" where
  "RegistryComponent c element key =
     (let uid = GeneratedGUIDs c;
          newComponent = \<lparr>Key = key, Element = element, UID = uid\<rparr>
      in c\<lparr>GeneratedGUIDs := Suc uid,
           AllComponents := AList.update uid newComponent (AllComponents c),
           CurrentRendered := AList.update key uid (CurrentRendered c)\<rparr>)"

definition UpdateComponent ::
  "LifetimeController \<Rightarrow> uid \<Rightarrow> ReactElement \<Rightarrow> LifetimeController" where
  "UpdateComponent c uid element =
     (case map_of (AllComponents c) uid of
        None \<Rightarrow> c
      | Some component \<Rightarrow>
          c\<lparr>AllComponents :=
               AList.update uid (component\<lparr>Element := element\<rparr>) (AllComponents c)\<rparr>)"

text \<open>
  The \<open>for ... of this.AllComponents\<close> loop of \<open>GetRenderedComponentByKey\<close>, over the
  sequence that the walk yields.
\<close>

fun first_with_key :: "key \<Rightarrow> (uid \<times> ComponentState) list \<Rightarrow> ComponentState option" where
  "first_with_key key [] = None"
| "first_with_key key ((_, component) # rest) =
     (if Key component = key then Some component else first_with_key key rest)"

definition GetRenderedComponentByKey ::
  "traversal \<Rightarrow> LifetimeController \<Rightarrow> key \<Rightarrow> ComponentState option" where
  "GetRenderedComponentByKey t c key =
     first_with_key key (lua_pairs (components_order t) (AllComponents c))"

text \<open>
  \<open>ProcessChildren\<close>, first \<open>forEach\<close>: it goes through the sequence yielded by the walk
  of the old \<open>CurrentRendered\<close> (the list argument), fills \<open>newChildren\<close> and updates the
  entries of the controller.
\<close>

fun rebind_children ::
  "ReactChildren \<Rightarrow> (key \<times> uid) list \<Rightarrow> LifetimeController \<Rightarrow> (key \<times> uid) list
     \<Rightarrow> LifetimeController \<times> (key \<times> uid) list" where
  "rebind_children children [] c newChildren = (c, newChildren)"
| "rebind_children children ((key, uid) # rest) c newChildren =
     (case map_of children key of
        None \<Rightarrow> rebind_children children rest c newChildren
      | Some child \<Rightarrow>
          rebind_children children rest (UpdateComponent c uid child)
            (AList.update key uid newChildren))"

text \<open>\<open>ProcessChildren\<close>, body of the second \<open>forEach\<close>, for one pair of \<open>children\<close>.\<close>

definition bind_child ::
  "traversal \<Rightarrow> LifetimeController \<Rightarrow> key \<Rightarrow> ReactElement \<Rightarrow> LifetimeController" where
  "bind_child t c key child =
     (case map_of (CurrentRendered c) key of
        Some uid \<Rightarrow> c
      | None \<Rightarrow>
          (if CanRecover c then
             (case GetRenderedComponentByKey t c key of
                Some component \<Rightarrow>
                  (let c1 = UpdateComponent c (UID component) child
                   in c1\<lparr>CurrentRendered :=
                           AList.update key (UID component) (CurrentRendered c1)\<rparr>)
              | None \<Rightarrow> RegistryComponent c child key)
           else RegistryComponent c child key))"

fun bind_children ::
  "traversal \<Rightarrow> ReactChildren \<Rightarrow> LifetimeController \<Rightarrow> LifetimeController" where
  "bind_children t [] c = c"
| "bind_children t ((key, child) # rest) c = bind_children t rest (bind_child t c key child)"

definition ProcessChildren ::
  "traversal \<Rightarrow> LifetimeController \<Rightarrow> ReactChildren \<Rightarrow> LifetimeController" where
  "ProcessChildren t c children =
     (let (c1, newChildren) =
            rebind_children children (lua_pairs (rendered_order t) (CurrentRendered c)) c [];
          c2 = c1\<lparr>CurrentRendered := newChildren\<rparr>
      in bind_children t (lua_pairs (children_order t) children) c2)"

section \<open>Rendering\<close>

text \<open>
  Modelled from the spec: \<open>React.createElement(type, config)\<close> belongs to the host
  library. It returns a new element of the given type whose props table is a new table
  holding the entries of \<open>config\<close>.
\<close>

definition createElement :: "string \<Rightarrow> PropsType \<Rightarrow> store \<Rightarrow> ReactElement \<times> store" where
  "createElement ty config s =
     (\<lparr>elem_type = ty, elem_props = PropsAt (next_addr s)\<rparr>,
      s\<lparr>objects := (objects s)(next_addr s := config), next_addr := Suc (next_addr s)\<rparr>)"

definition empty_props :: PropsType where
  "empty_props = \<lparr>LifetimeInternal = None, UIDInternal = None, own_fields = Map.empty\<rparr>"

text \<open>\<open><React.Fragment>{child}</React.Fragment>\<close>, \<open>child\<close> a map from key to element.\<close>

datatype fragment = Fragment ReactChildren

text \<open>
  Body of the \<open>forEach\<close> of \<open>RenderComponents\<close>. With a props table at address \<open>a\<close>,
  \<open>props\<close> is that very table: the two assignments write into the store at \<open>a\<close>, and
  the spread \<open>{ ...props }\<close> copies the table afterwards. With a null or undefined
  member, \<open>props\<close> is a fresh local table.
\<close>

definition render_component ::
  "uid \<times> ComponentState \<Rightarrow> (uid \<times> fragment) list \<times> store \<Rightarrow> (uid \<times> fragment) list \<times> store" where
  "render_component entry acc =
     (case entry of (uid, component) \<Rightarrow>
      case acc of (renderedChildren, s) \<Rightarrow>
        let element = Element component in
        (case elem_props element of
           NoProps \<Rightarrow>
             (AList.update uid (Fragment (AList.update (Key component) element []))
                renderedChildren, s)
         | NilProps \<Rightarrow>
             (let props = empty_props\<lparr>LifetimeInternal := Some This, UIDInternal := Some uid\<rparr>;
                  (created, s') = createElement (elem_type element) props s
              in (AList.update uid (Fragment (AList.update (Key component) created []))
                    renderedChildren, s'))
         | PropsAt a \<Rightarrow>
             (let s1 = s\<lparr>objects := (objects s)(a := (objects s a)\<lparr>LifetimeInternal := Some This\<rparr>)\<rparr>;
                  s2 = s1\<lparr>objects := (objects s1)(a := (objects s1 a)\<lparr>UIDInternal := Some uid\<rparr>)\<rparr>;
                  (created, s3) = createElement (elem_type element) (objects s2 a) s2
              in (AList.update uid (Fragment (AList.update (Key component) created []))
                    renderedChildren, s3))))"

text \<open>
  \<open>RenderComponents\<close>: the \<open>forEach\<close> over the sequence that the walk of \<open>AllComponents\<close>
  yields. The result \<open>renderedChildren\<close> is a table as well; its list holds the items in
  the sequence in which the loop sets them.
\<close>

definition RenderComponents ::
  "traversal \<Rightarrow> LifetimeController \<Rightarrow> store \<Rightarrow> (uid \<times> fragment) list \<times> store" where
  "RenderComponents t c s =
     fold render_component (lua_pairs (components_order t) (AllComponents c)) ([], s)"

section \<open>Hooks\<close>

datatype error = TypeError | Thrown string

record IntrinsicData =
  data_uid :: "uid option"
  data_controller :: "controller_ref option"

definition useIntrinsicData :: "PropsType \<Rightarrow> IntrinsicData option" where
  "useIntrinsicData props =
     (let uid = UIDInternal props; controller = LifetimeInternal props
      in if uid = None \<or> controller = None then None
         else Some \<lparr>data_uid = uid, data_controller = controller\<rparr>)"

text \<open>
  \<open>const { uid, controller } = useIntrinsicData(props)!\<close>: the assertion \<open>!\<close> is erased
  by the compiler, and reading a member of \<open>undefined\<close> raises a runtime error.
\<close>

definition destructure :: "IntrinsicData option \<Rightarrow> error + IntrinsicData" where
  "destructure r = (case r of None \<Rightarrow> Inl TypeError | Some d \<Rightarrow> Inr d)"

text \<open>
  The argument \<open>c\<close> of the hooks is the state of the controller that the reference in
  the props denotes.
\<close>

definition useComponentIsActive :: "LifetimeController \<Rightarrow> PropsType \<Rightarrow> error + bool" where
  "useComponentIsActive c props =
     (case destructure (useIntrinsicData props) of
        Inl e \<Rightarrow> Inl e
      | Inr d \<Rightarrow>
          (case (data_uid d, data_controller d) of
             (Some uid, Some controller) \<Rightarrow> Inr (IsComponentActive c uid)
           | _ \<Rightarrow> Inr True))"

text \<open>
  The three removal hooks up to the point where their effects are registered; the result
  \<open>Inr ()\<close> says the body ran through without raising. Timers, ticks and promises are
  outside this model.
\<close>

definition useComponentLifetime :: "LifetimeController \<Rightarrow> PropsType \<Rightarrow> error + unit" where
  "useComponentLifetime c props =
     (case destructure (useIntrinsicData props) of
        Inl e \<Rightarrow> Inl e
      | Inr d \<Rightarrow>
          (case (data_uid d, data_controller d) of
             (Some uid, Some controller) \<Rightarrow> Inr ()
           | _ \<Rightarrow> Inl (Thrown ''You cant use useComponentLifetime hook in components that are not children of a \"LifetimeComponent\"'')))"

definition useDeferLifetime :: "LifetimeController \<Rightarrow> PropsType \<Rightarrow> error + unit" where
  "useDeferLifetime c props =
     (case useComponentIsActive c props of
        Inl e \<Rightarrow> Inl e
      | Inr active \<Rightarrow>
          (case destructure (useIntrinsicData props) of
             Inl e \<Rightarrow> Inl e
           | Inr d \<Rightarrow>
               (case (data_uid d, data_controller d) of
                  (Some uid, Some controller) \<Rightarrow> Inr ()
                | _ \<Rightarrow> Inl (Thrown ''You cant use useComponentLifetime hook in components that are not children of \"LifetimeComponent\"''))))"

definition useLifetimeAsync :: "LifetimeController \<Rightarrow> PropsType \<Rightarrow> error + unit" where
  "useLifetimeAsync c props =
     (case destructure (useIntrinsicData props) of
        Inl e \<Rightarrow> Inl e
      | Inr d \<Rightarrow>
          (case useComponentIsActive c props of
             Inl e \<Rightarrow> Inl e
           | Inr active \<Rightarrow>
               (case (data_uid d, data_controller d) of
                  (Some uid, Some controller) \<Rightarrow> Inr ()
                | _ \<Rightarrow> Inl (Thrown ''You cant use useComponentLifetime hook in components that are not children of \"LifetimeComponent\"''))))"

section \<open>Well-formed states and runs of the controller\<close>

text \<open>
  \<open>entries_ok\<close>: the keys of \<open>AllComponents\<close> are distinct (it is a table), every entry
  is stored under its own \<open>UID\<close>, and that identifier has been handed out by the generator.
  \<open>bindings_ok\<close>: the keys of \<open>CurrentRendered\<close> are distinct, and every binding
  \<open>key \<mapsto> uid\<close> names an entry whose \<open>Key\<close> is that key.
\<close>

definition entries_ok :: "LifetimeController \<Rightarrow> bool" where
  "entries_ok c \<longleftrightarrow>
     distinct (map fst (AllComponents c)) \<and>
     list_all (\<lambda>(uid, component). UID component = uid \<and> uid < GeneratedGUIDs c) (AllComponents c)"

definition bindings_ok :: "LifetimeController \<Rightarrow> bool" where
  "bindings_ok c \<longleftrightarrow>
     distinct (map fst (CurrentRendered c)) \<and>
     list_all (\<lambda>(key, uid). map_option Key (map_of (AllComponents c) uid) = Some key)
       (CurrentRendered c)"

definition consistent :: "LifetimeController \<Rightarrow> bool" where
  "consistent c \<longleftrightarrow> entries_ok c \<and> bindings_ok c"

text \<open>The entries whose \<open>Key\<close> is the given key.\<close>

definition entries_with_key :: "key \<Rightarrow> LifetimeController \<Rightarrow> (uid \<times> ComponentState) list" where
  "entries_with_key key c = filter (\<lambda>(uid, component). Key component = key) (AllComponents c)"

text \<open>The physical keys of a rendered map, each with the logical keys inside its fragment.\<close>

definition rendered_keys :: "(uid \<times> fragment) list \<Rightarrow> (uid \<times> key list) list" where
  "rendered_keys rendered =
     map (\<lambda>(uid, frag). (uid, case frag of Fragment child \<Rightarrow> map fst child)) rendered"

text \<open>
  The calls a client can make on a controller: the public methods that change it, and the
  assignment \<open>controller.CanRecover = ...\<close> of \<open>LifetimeComponent\<close>. A call of
  \<open>ProcessChildren\<close> comes with the orders of its walks.
\<close>

datatype call =
    CallProcessChildren traversal ReactChildren
  | CallRegistryComponent ReactElement key
  | CallUpdateComponent uid ReactElement
  | CallUnlistComponent uid
  | CallSetUpdater updater
  | AssignCanRecover bool

fun exec :: "LifetimeController \<Rightarrow> call \<Rightarrow> LifetimeController" where
  "exec c (CallProcessChildren t children) = ProcessChildren t c children"
| "exec c (CallRegistryComponent element key) = RegistryComponent c element key"
| "exec c (CallUpdateComponent uid element) = UpdateComponent c uid element"
| "exec c (CallUnlistComponent uid) = UnlistComponent c uid"
| "exec c (CallSetUpdater updater) = SetUpdater c updater"
| "exec c (AssignCanRecover b) = c\<lparr>CanRecover := b\<rparr>"

fun run :: "call list \<Rightarrow> LifetimeController \<Rightarrow> LifetimeController" where
  "run [] c = c"
| "run (x # xs) c = run xs (exec c x)"

section \<open>Names for the intermediate states of \<open>ProcessChildren\<close>\<close>

text \<open>
  \<open>rebound\<close>: what the first loop does to the entry stored under \<open>u\<close>, where \<open>bs\<close> is
  the old \<open>CurrentRendered\<close>: the content is replaced when the entry is bound and its key is
  among the children.
\<close>

definition rebound :: "ReactChildren \<Rightarrow> (key \<times> uid) list \<Rightarrow> uid \<Rightarrow> ComponentState \<Rightarrow> ComponentState" where
  "rebound children bs u cs =
     (case map_of children (Key cs) of
        None \<Rightarrow> cs
      | Some child \<Rightarrow> if (Key cs, u) \<in> set bs then cs\<lparr>Element := child\<rparr> else cs)"

text \<open>The controller after \<open>this.CurrentRendered = newChildren\<close>, before the second loop.\<close>

definition after_rebind ::
  "traversal \<Rightarrow> LifetimeController \<Rightarrow> ReactChildren \<Rightarrow> LifetimeController" where
  "after_rebind t c children =
     (let (c1, newChildren) =
            rebind_children children (lua_pairs (rendered_order t) (CurrentRendered c)) c []
      in c1\<lparr>CurrentRendered := newChildren\<rparr>)"

text \<open>The recovery branch of the second loop, for the entry \<open>cs\<close> that was found.\<close>

definition recover :: "LifetimeController \<Rightarrow> key \<Rightarrow> ReactElement \<Rightarrow> ComponentState \<Rightarrow> LifetimeController" where
  "recover c k child cs =
     (UpdateComponent c (UID cs) child)
       \<lparr>CurrentRendered := AList.update k (UID cs) (CurrentRendered c)\<rparr>"

section \<open>Example states\<close>

text \<open>Two choices of the runtime: walks in the order of storage, and in the reverse order.\<close>

definition stored_order :: traversal where
  "stored_order = \<lparr>components_order = id, rendered_order = id, children_order = id\<rparr>"

definition reverse_order :: traversal where
  "reverse_order = \<lparr>components_order = rev, rendered_order = rev, children_order = rev\<rparr>"

definition keyA :: key where
  "keyA = StringKey ''A''"

definition window1 :: ReactElement where
  "window1 = \<lparr>elem_type = ''Window'', elem_props = PropsAt 0\<rparr>"

definition window2 :: ReactElement where
  "window2 = \<lparr>elem_type = ''Window'', elem_props = PropsAt 1\<rparr>"

text \<open>A store with two props tables made by the application, neither carrying a marker.\<close>

definition app_store :: store where
  "app_store =
     \<lparr>objects = (\<lambda>_. empty_props)
        (0 := empty_props\<lparr>own_fields := [''title'' \<mapsto> ''one'']\<rparr>,
         1 := empty_props\<lparr>own_fields := [''title'' \<mapsto> ''two'']\<rparr>),
      next_addr = 2\<rparr>"

text \<open>One pass with the child A, and a second pass without it.\<close>

definition shown_A :: LifetimeController where
  "shown_A = ProcessChildren stored_order new_LifetimeController [(keyA, window1)]"

definition dropped_A :: LifetimeController where
  "dropped_A = ProcessChildren stored_order shown_A []"

text \<open>
  A third pass with A again (recovery off: a second entry), a fourth pass without it, and
  the same state with recovery switched on.
\<close>

definition shown_again :: LifetimeController where
  "shown_again = ProcessChildren stored_order dropped_A [(keyA, window2)]"

definition dropped_again :: LifetimeController where
  "dropped_again = ProcessChildren stored_order shown_again []"

definition recovering :: LifetimeController where
  "recovering = dropped_again\<lparr>CanRecover := True\<rparr>"

text \<open>The state after the second pass, with recovery switched on: one detached entry.\<close>

definition recovering_A :: LifetimeController where
  "recovering_A = dropped_A\<lparr>CanRecover := True\<rparr>"

section \<open>Basic facts about the methods\<close>

lemma RemoveRenderedByUID_fields:
  "AllComponents (RemoveRenderedByUID c uid) = AllComponents c"
  "Updater (RemoveRenderedByUID c uid) = Updater c"
  "UpdaterCalls (RemoveRenderedByUID c uid) = UpdaterCalls c"
  "GeneratedGUIDs (RemoveRenderedByUID c uid) = GeneratedGUIDs c"
  "CanRecover (RemoveRenderedByUID c uid) = CanRecover c"
  by (simp_all add: RemoveRenderedByUID_def split: option.split)

lemma RemoveRenderedByUID_absent:
  "GetComponent c uid = None \<Longrightarrow> RemoveRenderedByUID c uid = c"
  by (simp add: RemoveRenderedByUID_def)

lemma lua_pairs_id: "lua_pairs id xs = xs"
  by (simp add: lua_pairs_def)

lemma lua_pairs_rev: "lua_pairs rev xs = rev xs"
  by (simp add: lua_pairs_def)

lemma shown_A_eq:
  "shown_A =
     \<lparr>CanRecover = False,
      AllComponents = [(0, \<lparr>Key = keyA, Element = window1, UID = 0\<rparr>)],
      CurrentRendered = [(keyA, 0)], Updater = DefaultUpdater,
      GeneratedGUIDs = 1, UpdaterCalls = []\<rparr>"
  by (simp add: shown_A_def ProcessChildren_def bind_child_def RegistryComponent_def
      new_LifetimeController_def stored_order_def lua_pairs_id)

lemma dropped_A_eq:
  "dropped_A =
     \<lparr>CanRecover = False,
      AllComponents = [(0, \<lparr>Key = keyA, Element = window1, UID = 0\<rparr>)],
      CurrentRendered = [], Updater = DefaultUpdater,
      GeneratedGUIDs = 1, UpdaterCalls = []\<rparr>"
  by (simp add: dropped_A_def shown_A_eq ProcessChildren_def stored_order_def lua_pairs_id)

subsection \<open>Association lists\<close>

lemma update_fresh: "k \<notin> fst ` set al \<Longrightarrow> AList.update k v al = al @ [(k, v)]"
  by (induction al) auto

lemma update_present_keys:
  "map_of al k = Some v \<Longrightarrow> map fst (AList.update k w al) = map fst al"
  by (induction al) (auto split: if_splits)

lemma alist_eqI:
  "distinct (map fst xs) \<Longrightarrow> map fst xs = map fst ys \<Longrightarrow> map_of xs = map_of ys \<Longrightarrow> xs = ys"
proof (induction xs arbitrary: ys)
  case Nil
  then show ?case by simp
next
  case (Cons x xs)
  then obtain y ys' where ys: "ys = y # ys'" by (cases ys) auto
  with Cons.prems have fxy: "fst x = fst y" and keys: "map fst xs = map fst ys'"
    by auto
  have "map_of (x # xs) (fst x) = map_of ys (fst x)"
    by (rule fun_cong [OF Cons.prems(3)])
  with ys fxy have sxy: "snd x = snd y" by (cases x; cases y) auto
  have "map_of xs = map_of ys'"
  proof
    fix k
    show "map_of xs k = map_of ys' k"
    proof (cases "k = fst x")
      case True
      with Cons.prems(1) have "k \<notin> fst ` set xs" by auto
      moreover from this keys have "k \<notin> fst ` set ys'"
        by (metis set_map)
      ultimately have "map_of xs k = None" and "map_of ys' k = None"
        by (simp_all add: map_of_eq_None_iff)
      then show ?thesis by simp
    next
      case False
      have "map_of (x # xs) k = map_of ys k"
        by (rule fun_cong [OF Cons.prems(3)])
      with False ys fxy show ?thesis by (cases x; cases y) auto
    qed
  qed
  with Cons.IH [of ys'] Cons.prems(1) keys have "xs = ys'" by simp
  with fxy sxy ys show ?case by (cases x; cases y) simp
qed

lemma map_of_distinct_mem:
  "distinct (map fst al) \<Longrightarrow> (k, v) \<in> set al \<longleftrightarrow> map_of al k = Some v"
  by (auto dest: map_of_SomeD)

subsection \<open>Walks\<close>

lemma mset_lua_pairs [simp]: "mset (lua_pairs order xs) = mset xs"
  by (simp add: lua_pairs_def)

lemma set_lua_pairs [simp]: "set (lua_pairs order xs) = set xs"
  using mset_lua_pairs [of order xs] by (rule mset_eq_setD)

lemma distinct_keys_lua_pairs [simp]:
  "distinct (map fst (lua_pairs order xs)) = distinct (map fst xs)"
proof -
  have "mset (map fst (lua_pairs order xs)) = mset (map fst xs)"
    by simp
  then show ?thesis by (rule mset_eq_imp_distinct_iff)
qed

lemma map_of_lua_pairs:
  assumes "distinct (map fst xs)"
  shows "map_of (lua_pairs order xs) = map_of xs"
proof -
  from assms have "distinct (map fst (lua_pairs order xs))" by simp
  from this assms show ?thesis
    by (simp add: map_of_inject_set)
qed

subsection \<open>IsComponentActive\<close>

lemma IsComponentActive_iff:
  "IsComponentActive c uid \<longleftrightarrow>
     (\<exists>cs. GetComponent c uid = Some cs \<and> UID cs = uid \<and>
        map_of (CurrentRendered c) (Key cs) = Some uid)"
  by (auto simp: IsComponentActive_def GetRendered_def split: option.splits)

subsection \<open>UpdateComponent\<close>

lemma UpdateComponent_fields:
  "CurrentRendered (UpdateComponent c uid e) = CurrentRendered c"
  "CanRecover (UpdateComponent c uid e) = CanRecover c"
  "Updater (UpdateComponent c uid e) = Updater c"
  "UpdaterCalls (UpdateComponent c uid e) = UpdaterCalls c"
  "GeneratedGUIDs (UpdateComponent c uid e) = GeneratedGUIDs c"
  by (simp_all add: UpdateComponent_def split: option.split)

lemma UpdateComponent_keys:
  "map fst (AllComponents (UpdateComponent c uid e)) = map fst (AllComponents c)"
  by (simp add: UpdateComponent_def update_present_keys split: option.split)

lemma UpdateComponent_get:
  "GetComponent (UpdateComponent c uid e) u =
     (if u = uid then map_option (\<lambda>cs. cs\<lparr>Element := e\<rparr>) (GetComponent c uid)
      else GetComponent c u)"
  by (simp add: UpdateComponent_def GetComponent_def AList.update_conv' split: option.split)

lemma UpdateComponent_map_ran:
  assumes "distinct (map fst (AllComponents c))"
  shows "AllComponents (UpdateComponent c uid e) =
           AList.map_ran (\<lambda>u cs. if u = uid then cs\<lparr>Element := e\<rparr> else cs) (AllComponents c)"
proof (rule alist_eqI)
  show "distinct (map fst (AllComponents (UpdateComponent c uid e)))"
    using assms by (simp add: UpdateComponent_keys)
  show "map fst (AllComponents (UpdateComponent c uid e)) =
        map fst (AList.map_ran (\<lambda>u cs. if u = uid then cs\<lparr>Element := e\<rparr> else cs) (AllComponents c))"
    by (simp add: UpdateComponent_keys)
  show "map_of (AllComponents (UpdateComponent c uid e)) =
        map_of (AList.map_ran (\<lambda>u cs. if u = uid then cs\<lparr>Element := e\<rparr> else cs) (AllComponents c))"
  proof
    fix u
    show "map_of (AllComponents (UpdateComponent c uid e)) u =
        map_of (AList.map_ran (\<lambda>u cs. if u = uid then cs\<lparr>Element := e\<rparr> else cs) (AllComponents c)) u"
      using UpdateComponent_get [of c uid e u]
      by (cases "map_of (AllComponents c) u") (auto simp: GetComponent_def AList.map_ran_conv)
  qed
qed

subsection \<open>Well-formed states\<close>

lemma entries_ok_alt:
  "entries_ok c \<longleftrightarrow>
     distinct (map fst (AllComponents c)) \<and>
     (\<forall>u cs. GetComponent c u = Some cs \<longrightarrow> UID cs = u \<and> u < GeneratedGUIDs c)"
proof
  assume "entries_ok c"
  then have d: "distinct (map fst (AllComponents c))"
    and every: "\<forall>x\<in>set (AllComponents c). UID (snd x) = fst x \<and> fst x < GeneratedGUIDs c"
    by (simp_all add: entries_ok_def list_all_iff split_beta)
  show "distinct (map fst (AllComponents c)) \<and>
     (\<forall>u cs. GetComponent c u = Some cs \<longrightarrow> UID cs = u \<and> u < GeneratedGUIDs c)"
  proof (intro conjI allI impI)
    show "distinct (map fst (AllComponents c))" by fact
  next
    fix u cs
    assume "GetComponent c u = Some cs"
    then have "(u, cs) \<in> set (AllComponents c)"
      unfolding GetComponent_def by (rule map_of_SomeD)
    with every have "UID (snd (u, cs)) = fst (u, cs) \<and> fst (u, cs) < GeneratedGUIDs c"
      by (rule bspec)
    then show "UID cs = u" and "u < GeneratedGUIDs c" by simp_all
  qed
next
  assume r: "distinct (map fst (AllComponents c)) \<and>
     (\<forall>u cs. GetComponent c u = Some cs \<longrightarrow> UID cs = u \<and> u < GeneratedGUIDs c)"
  have "UID (snd x) = fst x \<and> fst x < GeneratedGUIDs c" if "x \<in> set (AllComponents c)" for x
  proof -
    from that have "(fst x, snd x) \<in> set (AllComponents c)" by simp
    with r have "GetComponent c (fst x) = Some (snd x)"
      unfolding GetComponent_def by (simp only: map_of_distinct_mem)
    with r show ?thesis by blast
  qed
  with r show "entries_ok c"
    by (simp add: entries_ok_def list_all_iff split_beta)
qed

lemma bindings_ok_alt:
  "bindings_ok c \<longleftrightarrow>
     distinct (map fst (CurrentRendered c)) \<and>
     (\<forall>k u. map_of (CurrentRendered c) k = Some u \<longrightarrow>
        (\<exists>cs. GetComponent c u = Some cs \<and> Key cs = k))"
proof
  {
    assume "bindings_ok c"
    then have d: "distinct (map fst (CurrentRendered c))"
      and every: "\<forall>x\<in>set (CurrentRendered c).
         \<exists>cs. GetComponent c (snd x) = Some cs \<and> Key cs = fst x"
      by (simp_all add: bindings_ok_def list_all_iff split_beta GetComponent_def)
    show "distinct (map fst (CurrentRendered c)) \<and>
     (\<forall>k u. map_of (CurrentRendered c) k = Some u \<longrightarrow>
        (\<exists>cs. GetComponent c u = Some cs \<and> Key cs = k))"
    proof (intro conjI allI impI)
      show "distinct (map fst (CurrentRendered c))" by fact
    next
      fix k u
      assume "map_of (CurrentRendered c) k = Some u"
      then have "(k, u) \<in> set (CurrentRendered c)"
        by (rule map_of_SomeD)
      with every have "\<exists>cs. GetComponent c (snd (k, u)) = Some cs \<and> Key cs = fst (k, u)"
        by (rule bspec)
      then show "\<exists>cs. GetComponent c u = Some cs \<and> Key cs = k" by simp
    qed
  }
  {
    assume r: "distinct (map fst (CurrentRendered c)) \<and>
     (\<forall>k u. map_of (CurrentRendered c) k = Some u \<longrightarrow>
        (\<exists>cs. GetComponent c u = Some cs \<and> Key cs = k))"
    have "\<exists>cs. GetComponent c (snd x) = Some cs \<and> Key cs = fst x"
      if "x \<in> set (CurrentRendered c)" for x
    proof -
      from that have "(fst x, snd x) \<in> set (CurrentRendered c)" by simp
      with r have "map_of (CurrentRendered c) (fst x) = Some (snd x)"
        by (simp only: map_of_distinct_mem)
      with r show ?thesis by blast
    qed
    with r show "bindings_ok c"
      by (simp add: bindings_ok_def list_all_iff split_beta GetComponent_def)
  }
qed

lemma entries_okD:
  "entries_ok c \<Longrightarrow> GetComponent c u = Some cs \<Longrightarrow> UID cs = u \<and> u < GeneratedGUIDs c"
  by (simp add: entries_ok_alt)

lemma bindings_okD:
  "bindings_ok c \<Longrightarrow> map_of (CurrentRendered c) k = Some u \<Longrightarrow>
     \<exists>cs. GetComponent c u = Some cs \<and> Key cs = k"
  by (simp add: bindings_ok_alt)

lemma consistent_new: "consistent new_LifetimeController"
  by (simp add: consistent_def entries_ok_def bindings_ok_def new_LifetimeController_def)

lemma UpdateComponent_get_Some:
  "GetComponent (UpdateComponent c uid e) u = Some cs' \<Longrightarrow>
     \<exists>cs. GetComponent c u = Some cs \<and> Key cs' = Key cs \<and> UID cs' = UID cs"
  by (auto simp: UpdateComponent_get split: if_splits)

lemma UpdateComponent_get_key:
  "map_option Key (GetComponent (UpdateComponent c uid e) u) = map_option Key (GetComponent c u)"
  by (cases "GetComponent c uid") (auto simp: UpdateComponent_get)

lemma entries_ok_UpdateComponent:
  assumes "entries_ok c"
  shows "entries_ok (UpdateComponent c uid e)"
proof -
  have "UID cs' = u \<and> u < GeneratedGUIDs (UpdateComponent c uid e)"
    if "GetComponent (UpdateComponent c uid e) u = Some cs'" for u cs'
  proof -
    from that obtain cs where "GetComponent c u = Some cs" "UID cs' = UID cs"
      by (blast dest: UpdateComponent_get_Some)
    with assms show ?thesis
      by (auto dest: entries_okD simp: UpdateComponent_fields)
  qed
  moreover have "distinct (map fst (AllComponents (UpdateComponent c uid e)))"
    using assms by (simp add: UpdateComponent_keys entries_ok_alt)
  ultimately show ?thesis
    unfolding entries_ok_alt by blast
qed

lemma bindings_ok_UpdateComponent:
  assumes "bindings_ok c"
  shows "bindings_ok (UpdateComponent c uid e)"
proof -
  have "\<exists>cs. GetComponent (UpdateComponent c uid e) u = Some cs \<and> Key cs = k"
    if "map_of (CurrentRendered (UpdateComponent c uid e)) k = Some u" for k u
  proof -
    from that assms obtain cs where "GetComponent c u = Some cs" "Key cs = k"
      by (auto simp: UpdateComponent_fields dest: bindings_okD)
    then have "map_option Key (GetComponent (UpdateComponent c uid e) u) = Some k"
      by (simp add: UpdateComponent_get_key)
    then show ?thesis by auto
  qed
  moreover have "distinct (map fst (CurrentRendered (UpdateComponent c uid e)))"
    using assms by (simp add: UpdateComponent_fields bindings_ok_alt)
  ultimately show ?thesis
    unfolding bindings_ok_alt by blast
qed

lemma consistent_UpdateComponent:
  "consistent c \<Longrightarrow> consistent (UpdateComponent c uid e)"
  by (simp add: consistent_def entries_ok_UpdateComponent bindings_ok_UpdateComponent)

subsection \<open>RegistryComponent\<close>

lemma fresh_guid: "entries_ok c \<Longrightarrow> GeneratedGUIDs c \<notin> fst ` set (AllComponents c)"
proof
  assume ok: "entries_ok c" and "GeneratedGUIDs c \<in> fst ` set (AllComponents c)"
  then obtain cs where "(GeneratedGUIDs c, cs) \<in> set (AllComponents c)" by auto
  with ok show False
    unfolding entries_ok_def list_all_iff by fastforce
qed

lemma RegistryComponent_fields:
  "CanRecover (RegistryComponent c e k) = CanRecover c"
  "Updater (RegistryComponent c e k) = Updater c"
  "UpdaterCalls (RegistryComponent c e k) = UpdaterCalls c"
  "GeneratedGUIDs (RegistryComponent c e k) = Suc (GeneratedGUIDs c)"
  "CurrentRendered (RegistryComponent c e k) = AList.update k (GeneratedGUIDs c) (CurrentRendered c)"
  by (simp_all add: RegistryComponent_def Let_def)

lemma RegistryComponent_entries:
  "entries_ok c \<Longrightarrow>
     AllComponents (RegistryComponent c e k) =
       AllComponents c @ [(GeneratedGUIDs c, \<lparr>Key = k, Element = e, UID = GeneratedGUIDs c\<rparr>)]"
  by (simp add: RegistryComponent_def Let_def update_fresh fresh_guid)

lemma RegistryComponent_get:
  "GetComponent (RegistryComponent c e k) u =
     (if u = GeneratedGUIDs c then Some \<lparr>Key = k, Element = e, UID = GeneratedGUIDs c\<rparr>
      else GetComponent c u)"
  by (simp add: RegistryComponent_def Let_def GetComponent_def AList.update_conv')

lemma entries_ok_RegistryComponent:
  assumes "entries_ok c"
  shows "entries_ok (RegistryComponent c e k)"
proof -
  have "distinct (map fst (AllComponents (RegistryComponent c e k)))"
    using assms by (simp add: RegistryComponent_def Let_def AList.distinct_update entries_ok_alt)
  moreover have "UID cs = u \<and> u < GeneratedGUIDs (RegistryComponent c e k)"
    if "GetComponent (RegistryComponent c e k) u = Some cs" for u cs
  proof (cases "u = GeneratedGUIDs c")
    case True
    with that show ?thesis
      by (auto simp: RegistryComponent_get RegistryComponent_fields)
  next
    case False
    with that have "GetComponent c u = Some cs"
      by (simp add: RegistryComponent_get)
    with assms have "UID cs = u \<and> u < GeneratedGUIDs c"
      by (rule entries_okD)
    then show ?thesis by (simp add: RegistryComponent_fields)
  qed
  ultimately show ?thesis
    unfolding entries_ok_alt by blast
qed

lemma bindings_ok_RegistryComponent:
  assumes "entries_ok c" "bindings_ok c"
  shows "bindings_ok (RegistryComponent c e k)"
proof -
  have "\<exists>cs. GetComponent (RegistryComponent c e k) u = Some cs \<and> Key cs = k'"
    if "map_of (CurrentRendered (RegistryComponent c e k)) k' = Some u" for k' u
  proof (cases "k' = k")
    case True
    with that show ?thesis
      by (simp add: RegistryComponent_fields AList.update_conv' RegistryComponent_get)
  next
    case False
    with that have "map_of (CurrentRendered c) k' = Some u"
      by (simp add: RegistryComponent_fields AList.update_conv')
    with assms(2) obtain cs where cs: "GetComponent c u = Some cs" "Key cs = k'"
      by (auto dest: bindings_okD)
    with assms(1) have "u < GeneratedGUIDs c" by (auto dest: entries_okD)
    with cs show ?thesis by (simp add: RegistryComponent_get)
  qed
  moreover have "distinct (map fst (CurrentRendered (RegistryComponent c e k)))"
    using assms(2) by (simp add: RegistryComponent_fields AList.distinct_update bindings_ok_alt)
  ultimately show ?thesis
    unfolding bindings_ok_alt by blast
qed

lemma consistent_RegistryComponent:
  "consistent c \<Longrightarrow> consistent (RegistryComponent c e k)"
  by (simp add: consistent_def entries_ok_RegistryComponent bindings_ok_RegistryComponent)

subsection \<open>UnlistComponent\<close>

lemma RemoveRenderedByUID_inactive:
  assumes "entries_ok c" "\<not> IsComponentActive c uid"
  shows "RemoveRenderedByUID c uid = c"
proof (cases "GetComponent c uid")
  case None
  then show ?thesis by (simp add: RemoveRenderedByUID_def)
next
  case (Some cs)
  with assms(1) have "UID cs = uid" by (auto dest: entries_okD)
  with assms(2) Some have "map_of (CurrentRendered c) (Key cs) \<noteq> Some uid"
    unfolding IsComponentActive_iff by simp
  with Some show ?thesis by (simp add: RemoveRenderedByUID_def)
qed

lemma UnlistComponent_inactive:
  "entries_ok c \<Longrightarrow> \<not> IsComponentActive c uid \<Longrightarrow>
     UnlistComponent c uid =
       c\<lparr>AllComponents := AList.delete uid (AllComponents c),
         UpdaterCalls := UpdaterCalls c @ [Updater c]\<rparr>"
  by (simp add: UnlistComponent_def Let_def RemoveRenderedByUID_inactive)

lemma consistent_UnlistComponent:
  assumes "consistent c"
  shows "consistent (UnlistComponent c uid)"
proof (cases "IsComponentActive c uid")
  case True
  with assms show ?thesis by (simp add: UnlistComponent_def)
next
  case False
  from assms have e: "entries_ok c" and b: "bindings_ok c"
    by (simp_all add: consistent_def)
  let ?c' = "c\<lparr>AllComponents := AList.delete uid (AllComponents c),
         UpdaterCalls := UpdaterCalls c @ [Updater c]\<rparr>"
  have get: "GetComponent ?c' u = (if u = uid then None else GetComponent c u)" for u
    by (simp add: GetComponent_def AList.delete_conv')
  have "UID cs = u \<and> u < GeneratedGUIDs ?c'" if "GetComponent ?c' u = Some cs" for u cs
  proof -
    from that have "GetComponent c u = Some cs"
      by (simp add: get split: if_splits)
    with e show ?thesis by (auto dest: entries_okD)
  qed
  moreover have "distinct (map fst (AllComponents ?c'))"
    using e by (simp add: AList.distinct_delete entries_ok_alt)
  ultimately have "entries_ok ?c'"
    unfolding entries_ok_alt by blast
  moreover have "bindings_ok ?c'"
    unfolding bindings_ok_alt
  proof (intro conjI allI impI)
    show "distinct (map fst (CurrentRendered ?c'))"
      using b by (simp add: bindings_ok_alt)
    fix k u
    assume "map_of (CurrentRendered ?c') k = Some u"
    then have m: "map_of (CurrentRendered c) k = Some u" by simp
    with b obtain cs where cs: "GetComponent c u = Some cs" "Key cs = k"
      by (auto dest: bindings_okD)
    with e have "UID cs = u" by (auto dest: entries_okD)
    with cs m have "IsComponentActive c u"
      by (auto simp: IsComponentActive_iff)
    with False have "u \<noteq> uid" by auto
    with cs show "\<exists>cs. GetComponent ?c' u = Some cs \<and> Key cs = k"
      by (simp add: get)
  qed
  ultimately show ?thesis
    using e False by (simp add: consistent_def UnlistComponent_inactive)
qed

subsection \<open>The first loop of ProcessChildren\<close>

lemma rebind_children_fields:
  "CurrentRendered (fst (rebind_children children bs c acc)) = CurrentRendered c"
  "CanRecover (fst (rebind_children children bs c acc)) = CanRecover c"
  "Updater (fst (rebind_children children bs c acc)) = Updater c"
  "UpdaterCalls (fst (rebind_children children bs c acc)) = UpdaterCalls c"
  "GeneratedGUIDs (fst (rebind_children children bs c acc)) = GeneratedGUIDs c"
  by (induction children bs c acc rule: rebind_children.induct;
      simp add: UpdateComponent_fields split: option.split)+

lemma rebind_children_entries_ok:
  "entries_ok c \<Longrightarrow> entries_ok (fst (rebind_children children bs c acc))"
  by (induction children bs c acc rule: rebind_children.induct)
    (simp_all add: entries_ok_UpdateComponent split: option.split)

lemma rebind_children_bindings:
  "distinct (map fst bs) \<Longrightarrow>
     map_of (snd (rebind_children children bs c acc)) k =
       (if map_of children k \<noteq> None \<and> map_of bs k \<noteq> None then map_of bs k else map_of acc k)"
proof (induction children bs c acc rule: rebind_children.induct)
  case (1 children c newChildren)
  then show ?case by simp
next
  case (2 children key uid rest c newChildren)
  show ?case
  proof (cases "map_of children key")
    case None
    with 2 show ?thesis by auto
  next
    case (Some child)
    from "2.prems" have "map_of rest key = None"
      by (simp add: map_of_eq_None_iff)
    with 2 Some show ?thesis
      by (auto simp: AList.update_conv')
  qed
qed

lemma rebind_children_distinct:
  "distinct (map fst acc) \<Longrightarrow> distinct (map fst (snd (rebind_children children bs c acc)))"
  by (induction children bs c acc rule: rebind_children.induct)
    (simp_all add: AList.distinct_update split: option.split)

lemma rebind_children_get:
  "\<forall>(k, u) \<in> set bs. \<forall>cs. GetComponent c u = Some cs \<longrightarrow> Key cs = k \<Longrightarrow>
     GetComponent (fst (rebind_children children bs c acc)) u =
       map_option (rebound children bs u) (GetComponent c u)"
proof (induction children bs c acc rule: rebind_children.induct)
  case (1 children c newChildren)
  show ?case
    by (cases "GetComponent c u") (simp_all add: rebound_def split: option.split)
next
  case (2 children key uid rest c newChildren)
  from "2.prems" have here: "\<And>cs. GetComponent c uid = Some cs \<Longrightarrow> Key cs = key"
    and there: "\<forall>(k, u) \<in> set rest. \<forall>cs. GetComponent c u = Some cs \<longrightarrow> Key cs = k"
    by auto
  show ?case
  proof (cases "map_of children key")
    case None
    with 2 there have "GetComponent (fst (rebind_children children ((key, uid) # rest) c newChildren)) u
        = map_option (rebound children rest u) (GetComponent c u)"
      by simp
    also have "\<dots> = map_option (rebound children ((key, uid) # rest) u) (GetComponent c u)"
    proof (cases "GetComponent c u")
      case (Some cs)
      with here None show ?thesis
        by (auto simp: rebound_def split: option.split)
    qed simp
    finally show ?thesis .
  next
    case (Some child)
    let ?c' = "UpdateComponent c uid child"
    have "\<forall>(k, u) \<in> set rest. \<forall>cs. GetComponent ?c' u = Some cs \<longrightarrow> Key cs = k"
    proof (clarify)
      fix k u' cs'
      assume "(k, u') \<in> set rest" "GetComponent ?c' u' = Some cs'"
      then obtain cs where "GetComponent c u' = Some cs" "Key cs' = Key cs"
        by (blast dest: UpdateComponent_get_Some)
      with there \<open>(k, u') \<in> set rest\<close> show "Key cs' = k" by auto
    qed
    with 2 Some have "GetComponent (fst (rebind_children children ((key, uid) # rest) c newChildren)) u
        = map_option (rebound children rest u) (GetComponent ?c' u)"
      by simp
    also have "\<dots> = map_option (rebound children ((key, uid) # rest) u) (GetComponent c u)"
    proof (cases "GetComponent c u")
      case None
      then show ?thesis by (auto simp: UpdateComponent_get)
    next
      case cs: (Some cs)
      show ?thesis
      proof (cases "u = uid")
        case True
        with cs here have "Key cs = key" by simp
        with cs True Some show ?thesis
          by (simp add: UpdateComponent_get rebound_def)
      next
        case False
        with cs show ?thesis
          by (simp add: UpdateComponent_get rebound_def split: option.split)
      qed
    qed
    finally show ?thesis .
  qed
qed

lemma rebind_children_keys:
  "map fst (AllComponents (fst (rebind_children children bs c acc))) = map fst (AllComponents c)"
  by (induction children bs c acc rule: rebind_children.induct)
    (simp_all add: UpdateComponent_keys split: option.split)

lemma ProcessChildren_after_rebind:
  "ProcessChildren t c children =
     bind_children t (lua_pairs (children_order t) children) (after_rebind t c children)"
  by (simp add: ProcessChildren_def after_rebind_def split_beta Let_def)

lemma after_rebind_eq:
  "after_rebind t c children =
     (fst (rebind_children children (lua_pairs (rendered_order t) (CurrentRendered c)) c []))
       \<lparr>CurrentRendered :=
          snd (rebind_children children (lua_pairs (rendered_order t) (CurrentRendered c)) c [])\<rparr>"
  by (simp add: after_rebind_def split_beta)

lemma after_rebind_fields:
  "CanRecover (after_rebind t c children) = CanRecover c"
  "Updater (after_rebind t c children) = Updater c"
  "UpdaterCalls (after_rebind t c children) = UpdaterCalls c"
  "GeneratedGUIDs (after_rebind t c children) = GeneratedGUIDs c"
  "map fst (AllComponents (after_rebind t c children)) = map fst (AllComponents c)"
  by (simp_all add: after_rebind_eq rebind_children_fields rebind_children_keys)

lemma after_rebind_bindings:
  assumes "bindings_ok c"
  shows "map_of (CurrentRendered (after_rebind t c children)) k =
           (if map_of children k = None then None else map_of (CurrentRendered c) k)"
proof -
  let ?bs = "lua_pairs (rendered_order t) (CurrentRendered c)"
  from assms have d: "distinct (map fst (CurrentRendered c))"
    by (simp add: bindings_ok_alt)
  then have same: "map_of ?bs = map_of (CurrentRendered c)"
    by (rule map_of_lua_pairs)
  from d have "distinct (map fst ?bs)" by simp
  then have "map_of (snd (rebind_children children ?bs c [])) k =
       (if map_of children k \<noteq> None \<and> map_of ?bs k \<noteq> None
        then map_of ?bs k else map_of [] k)"
    by (rule rebind_children_bindings)
  then show ?thesis
    by (cases "map_of children k"; cases "map_of (CurrentRendered c) k")
      (simp_all add: after_rebind_eq same)
qed

lemma after_rebind_get:
  assumes "bindings_ok c"
  shows "GetComponent (after_rebind t c children) u =
           map_option (rebound children (CurrentRendered c) u) (GetComponent c u)"
proof -
  let ?bs = "lua_pairs (rendered_order t) (CurrentRendered c)"
  have "\<forall>(k, u) \<in> set (CurrentRendered c). \<forall>cs. GetComponent c u = Some cs \<longrightarrow> Key cs = k"
  proof clarify
    fix k u cs
    assume "(k, u) \<in> set (CurrentRendered c)" "GetComponent c u = Some cs"
    from assms have "distinct (map fst (CurrentRendered c))"
      by (simp add: bindings_ok_alt)
    from this \<open>(k, u) \<in> set (CurrentRendered c)\<close>
    have "map_of (CurrentRendered c) k = Some u"
      by (rule map_of_is_SomeI)
    with assms \<open>GetComponent c u = Some cs\<close> show "Key cs = k"
      by (auto dest: bindings_okD)
  qed
  then have "\<forall>(k, u) \<in> set ?bs. \<forall>cs. GetComponent c u = Some cs \<longrightarrow> Key cs = k"
    by simp
  then have "GetComponent (fst (rebind_children children ?bs c [])) u =
       map_option (rebound children ?bs u) (GetComponent c u)"
    by (rule rebind_children_get)
  moreover have "rebound children ?bs u = rebound children (CurrentRendered c) u"
    by (simp add: rebound_def fun_eq_iff split: option.split)
  ultimately show ?thesis
    by (simp add: after_rebind_eq GetComponent_def)
qed

lemma rebound_Key [simp]: "Key (rebound children bs u cs) = Key cs"
  and rebound_UID [simp]: "UID (rebound children bs u cs) = UID cs"
  by (simp_all add: rebound_def split: option.split)

lemma after_rebind_entries:
  assumes "consistent c"
  shows "AllComponents (after_rebind t c children) =
           AList.map_ran (rebound children (CurrentRendered c)) (AllComponents c)"
proof (rule alist_eqI)
  from assms have e: "entries_ok c" and b: "bindings_ok c"
    by (simp_all add: consistent_def)
  from e show "distinct (map fst (AllComponents (after_rebind t c children)))"
    by (simp add: after_rebind_fields entries_ok_alt)
  show "map fst (AllComponents (after_rebind t c children)) =
        map fst (AList.map_ran (rebound children (CurrentRendered c)) (AllComponents c))"
    by (simp add: after_rebind_fields)
  show "map_of (AllComponents (after_rebind t c children)) =
        map_of (AList.map_ran (rebound children (CurrentRendered c)) (AllComponents c))"
  proof
    fix u
    show "map_of (AllComponents (after_rebind t c children)) u =
        map_of (AList.map_ran (rebound children (CurrentRendered c)) (AllComponents c)) u"
      using after_rebind_get [OF b, of t children u]
      by (simp add: GetComponent_def AList.map_ran_conv)
  qed
qed

lemma consistent_after_rebind:
  assumes "consistent c"
  shows "consistent (after_rebind t c children)"
proof -
  from assms have e: "entries_ok c" and b: "bindings_ok c"
    by (simp_all add: consistent_def)
  have "entries_ok (fst (rebind_children children
      (lua_pairs (rendered_order t) (CurrentRendered c)) c []))"
    using e by (rule rebind_children_entries_ok)
  then have e': "entries_ok (after_rebind t c children)"
    by (simp add: after_rebind_eq entries_ok_def)
  have "\<exists>cs. GetComponent (after_rebind t c children) u = Some cs \<and> Key cs = k"
    if "map_of (CurrentRendered (after_rebind t c children)) k = Some u" for k u
  proof -
    from that have "map_of (CurrentRendered c) k = Some u"
      by (simp add: after_rebind_bindings [OF b] split: if_splits)
    with b obtain cs where "GetComponent c u = Some cs" "Key cs = k"
      by (auto dest: bindings_okD)
    then show ?thesis
      by (simp add: after_rebind_get [OF b])
  qed
  moreover have "distinct (map fst (CurrentRendered (after_rebind t c children)))"
    by (simp add: after_rebind_eq rebind_children_distinct)
  ultimately have "bindings_ok (after_rebind t c children)"
    unfolding bindings_ok_alt by blast
  with e' show ?thesis by (simp add: consistent_def)
qed

subsection \<open>Entries with a given key\<close>

lemma first_with_key_Some:
  "first_with_key k al = Some cs \<Longrightarrow> \<exists>u. (u, cs) \<in> set al \<and> Key cs = k"
  by (induction al) (auto split: if_splits)

lemma first_with_key_None:
  "first_with_key k al = None \<longleftrightarrow> filter (\<lambda>(u, cs). Key cs = k) al = []"
  by (induction al) auto


lemma GetRenderedComponentByKey_member:
  assumes "GetRenderedComponentByKey t c k = Some cs"
  shows "\<exists>u. (u, cs) \<in> set (entries_with_key k c)"
proof -
  from assms obtain u where
    "(u, cs) \<in> set (lua_pairs (components_order t) (AllComponents c))" "Key cs = k"
    unfolding GetRenderedComponentByKey_def by (blast dest: first_with_key_Some)
  then have "(u, cs) \<in> set (entries_with_key k c)"
    by (simp add: entries_with_key_def)
  then show ?thesis ..
qed

lemma GetRenderedComponentByKey_None_iff:
  "GetRenderedComponentByKey t c k = None \<longleftrightarrow> entries_with_key k c = []"
proof -
  have "filter (\<lambda>(u, cs). Key cs = k) (lua_pairs (components_order t) (AllComponents c)) = [] \<longleftrightarrow>
      filter (\<lambda>(u, cs). Key cs = k) (AllComponents c) = []"
    by (simp only: filter_empty_conv set_lua_pairs)
  then show ?thesis
    by (simp add: GetRenderedComponentByKey_def first_with_key_None entries_with_key_def)
qed

lemma entries_with_key_mem:
  assumes "entries_ok c"
  shows "(u, cs) \<in> set (entries_with_key k c) \<longleftrightarrow> GetComponent c u = Some cs \<and> Key cs = k"
proof -
  from assms have "distinct (map fst (AllComponents c))"
    by (simp add: entries_ok_def)
  then have "(u, cs) \<in> set (AllComponents c) \<longleftrightarrow> GetComponent c u = Some cs"
    unfolding GetComponent_def by (rule map_of_distinct_mem)
  then show ?thesis
    by (simp add: entries_with_key_def)
qed

lemma after_rebind_entries_with_key:
  assumes "consistent c" "map_of children k = None \<or> map_of (CurrentRendered c) k = None"
  shows "entries_with_key k (after_rebind t c children) = entries_with_key k c"
proof -
  have same: "rebound children (CurrentRendered c) u cs = cs" if "Key cs = k" for u cs
  proof (cases "map_of children k")
    case None
    with that show ?thesis by (simp add: rebound_def)
  next
    case (Some child)
    with assms(2) have "map_of (CurrentRendered c) k = None" by simp
    then have "k \<notin> fst ` set (CurrentRendered c)"
      by (simp add: map_of_eq_None_iff)
    then have "(k, u) \<notin> set (CurrentRendered c)"
      by force
    with that show ?thesis by (simp add: rebound_def split: option.split)
  qed
  have "filter (\<lambda>(u, cs). Key cs = k) (AList.map_ran (rebound children (CurrentRendered c)) al)
      = filter (\<lambda>(u, cs). Key cs = k) al" for al
    by (induction al) (auto simp: same)
  with assms(1) show ?thesis
    by (simp add: entries_with_key_def after_rebind_entries)
qed

lemma filter_map_ran_Key:
  assumes "\<And>u cs. Key (f u cs) = Key cs"
  shows "filter (\<lambda>(u, cs). Key cs = k) (AList.map_ran f al) =
         AList.map_ran f (filter (\<lambda>(u, cs). Key cs = k) al)"
  by (induction al) (auto simp: assms)

lemma map_ran_id:
  "(\<And>u cs. (u, cs) \<in> set al \<Longrightarrow> f u cs = cs) \<Longrightarrow> AList.map_ran f al = al"
  by (induction al) auto

lemma UpdateComponent_entries_with_key:
  assumes "entries_ok c"
  shows "entries_with_key k (UpdateComponent c uid e) =
           AList.map_ran (\<lambda>u cs. if u = uid then cs\<lparr>Element := e\<rparr> else cs) (entries_with_key k c)"
proof -
  from assms have "distinct (map fst (AllComponents c))"
    by (simp add: entries_ok_def)
  then show ?thesis
    by (simp add: entries_with_key_def UpdateComponent_map_ran filter_map_ran_Key)
qed

lemma UpdateComponent_entries_with_key_other:
  assumes "entries_ok c" "\<And>cs. GetComponent c uid = Some cs \<Longrightarrow> Key cs \<noteq> k"
  shows "entries_with_key k (UpdateComponent c uid e) = entries_with_key k c"
proof -
  have "(if u = uid then cs\<lparr>Element := e\<rparr> else cs) = cs"
    if "(u, cs) \<in> set (entries_with_key k c)" for u cs
  proof -
    from that assms(1) have "GetComponent c u = Some cs" "Key cs = k"
      by (simp_all add: entries_with_key_mem)
    with assms(2) have "u \<noteq> uid" by auto
    then show ?thesis by simp
  qed
  then have "AList.map_ran (\<lambda>u cs. if u = uid then cs\<lparr>Element := e\<rparr> else cs) (entries_with_key k c)
      = entries_with_key k c"
    by (rule map_ran_id)
  with assms(1) show ?thesis
    by (simp add: UpdateComponent_entries_with_key)
qed

lemma RegistryComponent_entries_with_key:
  assumes "entries_ok c"
  shows "entries_with_key k (RegistryComponent c e k') =
           (if k' = k
            then entries_with_key k c @
                   [(GeneratedGUIDs c, \<lparr>Key = k, Element = e, UID = GeneratedGUIDs c\<rparr>)]
            else entries_with_key k c)"
  using assms by (simp add: entries_with_key_def RegistryComponent_entries)

subsection \<open>One step of the second loop\<close>

lemma bind_child_bound:
  "map_of (CurrentRendered c) k = Some u \<Longrightarrow> bind_child t c k child = c"
  by (simp add: bind_child_def)

lemma bind_child_fields:
  "CanRecover (bind_child t c k child) = CanRecover c"
  "Updater (bind_child t c k child) = Updater c"
  "UpdaterCalls (bind_child t c k child) = UpdaterCalls c"
  by (simp_all add: bind_child_def Let_def UpdateComponent_fields RegistryComponent_fields
      split: option.split)

lemma bind_child_guids:
  "GeneratedGUIDs c \<le> GeneratedGUIDs (bind_child t c k child)"
  by (simp add: bind_child_def Let_def UpdateComponent_fields RegistryComponent_fields
      split: option.split)

lemma bind_child_other_binding:
  "k' \<noteq> k \<Longrightarrow>
     map_of (CurrentRendered (bind_child t c k' child)) k = map_of (CurrentRendered c) k"
  by (simp add: bind_child_def Let_def UpdateComponent_fields RegistryComponent_fields
      AList.update_conv' split: option.split)

lemma GetRenderedComponentByKey_Some:
  assumes "entries_ok c" "GetRenderedComponentByKey t c k = Some cs"
  shows "GetComponent c (UID cs) = Some cs \<and> Key cs = k"
proof -
  from assms(2) obtain u where "(u, cs) \<in> set (entries_with_key k c)"
    by (blast dest: GetRenderedComponentByKey_member)
  with assms(1) have "GetComponent c u = Some cs" "Key cs = k"
    by (simp_all add: entries_with_key_mem)
  moreover from this assms(1) have "UID cs = u" by (auto dest: entries_okD)
  ultimately show ?thesis by simp
qed

lemma bind_child_unbound:
  assumes "map_of (CurrentRendered c) k = None"
  shows "bind_child t c k child =
           (if CanRecover c
            then (case GetRenderedComponentByKey t c k of
                    Some cs \<Rightarrow> recover c k child cs
                  | None \<Rightarrow> RegistryComponent c child k)
            else RegistryComponent c child k)"
  using assms
  by (simp add: bind_child_def recover_def Let_def UpdateComponent_fields split: option.split)

lemma recover_get:
  "GetComponent (recover c k child cs) u = GetComponent (UpdateComponent c (UID cs) child) u"
  by (simp add: recover_def GetComponent_def)

lemma recover_entries_with_key:
  "entries_with_key k' (recover c k child cs) =
     entries_with_key k' (UpdateComponent c (UID cs) child)"
  by (simp add: recover_def entries_with_key_def)

lemma consistent_recover:
  assumes "consistent c" "GetRenderedComponentByKey t c k = Some cs"
  shows "consistent (recover c k child cs)"
proof -
  from assms(1) have e: "entries_ok c" and b: "bindings_ok c"
    by (simp_all add: consistent_def)
  let ?c1 = "UpdateComponent c (UID cs) child"
  from e assms(2) have cs: "GetComponent c (UID cs) = Some cs" "Key cs = k"
    by (simp_all add: GetRenderedComponentByKey_Some)
  have e1: "entries_ok ?c1" and b1: "bindings_ok ?c1"
    using e b by (simp_all add: entries_ok_UpdateComponent bindings_ok_UpdateComponent)
  from e1 have "entries_ok (recover c k child cs)"
    by (simp add: recover_def entries_ok_def)
  moreover have "\<exists>cs'. GetComponent (recover c k child cs) u = Some cs' \<and> Key cs' = k'"
    if "map_of (CurrentRendered (recover c k child cs)) k' = Some u" for k' u
  proof (cases "k' = k")
    case True
    with that have "u = UID cs"
      by (simp add: recover_def AList.update_conv')
    with cs True show ?thesis
      by (simp add: recover_get UpdateComponent_get)
  next
    case False
    with that have "map_of (CurrentRendered ?c1) k' = Some u"
      by (simp add: recover_def AList.update_conv' UpdateComponent_fields)
    with b1 show ?thesis
      by (simp add: recover_get bindings_okD)
  qed
  moreover have "distinct (map fst (CurrentRendered (recover c k child cs)))"
    using b by (simp add: recover_def AList.distinct_update bindings_ok_alt)
  ultimately show ?thesis
    unfolding consistent_def bindings_ok_alt by blast
qed

lemma consistent_bind_child:
  assumes "consistent c"
  shows "consistent (bind_child t c k child)"
proof (cases "map_of (CurrentRendered c) k")
  case (Some u)
  with assms show ?thesis by (simp add: bind_child_bound)
next
  case None
  with assms show ?thesis
    by (simp add: bind_child_unbound consistent_recover consistent_RegistryComponent
        split: option.split)
qed

lemma bind_child_other_entries:
  assumes "consistent c" "k' \<noteq> k"
  shows "entries_with_key k (bind_child t c k' child) = entries_with_key k c"
proof (cases "map_of (CurrentRendered c) k'")
  case (Some u)
  then show ?thesis by (simp add: bind_child_bound)
next
  case None
  from assms(1) have e: "entries_ok c" by (simp add: consistent_def)
  have "entries_with_key k (recover c k' child cs) = entries_with_key k c"
    if "GetRenderedComponentByKey t c k' = Some cs" for cs
  proof -
    from e that have "GetComponent c (UID cs) = Some cs" "Key cs = k'"
      by (simp_all add: GetRenderedComponentByKey_Some)
    with assms(2) have "\<And>cs'. GetComponent c (UID cs) = Some cs' \<Longrightarrow> Key cs' \<noteq> k"
      by simp
    with e show ?thesis
      by (simp add: recover_entries_with_key UpdateComponent_entries_with_key_other)
  qed
  with None e assms(2) show ?thesis
    by (simp add: bind_child_unbound RegistryComponent_entries_with_key split: option.split)
qed

subsection \<open>The second loop of ProcessChildren\<close>

lemma bind_child_binds:
  "map_of (CurrentRendered (bind_child t c k child)) k \<noteq> None"
  by (simp add: bind_child_def Let_def UpdateComponent_fields RegistryComponent_fields
      AList.update_conv' split: option.split)

lemma consistent_bind_children:
  "consistent c \<Longrightarrow> consistent (bind_children t children c)"
  by (induction t children c rule: bind_children.induct) (simp_all add: consistent_bind_child)

lemma bind_children_stable:
  assumes "consistent c" "map_of (CurrentRendered c) k \<noteq> None \<or> k \<notin> fst ` set children"
  shows "map_of (CurrentRendered (bind_children t children c)) k = map_of (CurrentRendered c) k \<and>
         entries_with_key k (bind_children t children c) = entries_with_key k c"
  using assms
proof (induction t children c rule: bind_children.induct)
  case (1 t c)
  show ?case by simp
next
  case (2 t key child rest c)
  let ?c1 = "bind_child t c key child"
  have step: "map_of (CurrentRendered ?c1) k = map_of (CurrentRendered c) k \<and>
      entries_with_key k ?c1 = entries_with_key k c"
  proof (cases "key = k")
    case True
    with "2.prems"(2) obtain u where "map_of (CurrentRendered c) key = Some u" by auto
    then have "?c1 = c" by (rule bind_child_bound)
    then show ?thesis by simp
  next
    case False
    with "2.prems"(1) show ?thesis
      by (simp add: bind_child_other_binding bind_child_other_entries)
  qed
  moreover have "consistent ?c1"
    using "2.prems"(1) by (rule consistent_bind_child)
  moreover have "map_of (CurrentRendered ?c1) k \<noteq> None \<or> k \<notin> fst ` set rest"
    using "2.prems"(2) step by auto
  ultimately show ?case
    using "2.IH" by simp
qed

text \<open>
  With respect to a key of \<open>children\<close> that has no binding, the whole loop acts like its
  step for that key, taken in a state that agrees with the initial one on that key.
\<close>

lemma bind_children_unbound:
  assumes "consistent c" "map_of (CurrentRendered c) k = None" "map_of children k = Some child"
  shows "\<exists>c'. consistent c' \<and> map_of (CurrentRendered c') k = None \<and>
           entries_with_key k c' = entries_with_key k c \<and>
           CanRecover c' = CanRecover c \<and> GeneratedGUIDs c \<le> GeneratedGUIDs c' \<and>
           map_of (CurrentRendered (bind_children t children c)) k =
             map_of (CurrentRendered (bind_child t c' k child)) k \<and>
           entries_with_key k (bind_children t children c) =
             entries_with_key k (bind_child t c' k child)"
  using assms
proof (induction t children c rule: bind_children.induct)
  case (1 t c)
  then show ?case by simp
next
  case (2 t key ch rest c)
  let ?c1 = "bind_child t c key ch"
  have c1: "consistent ?c1"
    using "2.prems"(1) by (rule consistent_bind_child)
  show ?case
  proof (cases "key = k")
    case True
    with "2.prems"(3) have ch: "ch = child" by simp
    have "map_of (CurrentRendered ?c1) k \<noteq> None \<or> k \<notin> fst ` set rest"
      using True bind_child_binds [of t c k ch] by simp
    with c1 have "map_of (CurrentRendered (bind_children t rest ?c1)) k = map_of (CurrentRendered ?c1) k \<and>
         entries_with_key k (bind_children t rest ?c1) = entries_with_key k ?c1"
      by (rule bind_children_stable)
    with True ch "2.prems" show ?thesis
      by (intro exI [of _ c]) simp
  next
    case False
    with "2.prems" have "map_of (CurrentRendered ?c1) k = None" "map_of rest k = Some child"
      by (simp_all add: bind_child_other_binding)
    with c1 "2.IH" obtain c' where c': "consistent c'" "map_of (CurrentRendered c') k = None"
      "entries_with_key k c' = entries_with_key k ?c1"
      "CanRecover c' = CanRecover ?c1" "GeneratedGUIDs ?c1 \<le> GeneratedGUIDs c'"
      "map_of (CurrentRendered (bind_children t rest ?c1)) k =
         map_of (CurrentRendered (bind_child t c' k child)) k"
      "entries_with_key k (bind_children t rest ?c1) = entries_with_key k (bind_child t c' k child)"
      by blast
    have "entries_with_key k ?c1 = entries_with_key k c"
      using "2.prems"(1) False by (simp add: bind_child_other_entries)
    moreover have "GeneratedGUIDs c \<le> GeneratedGUIDs ?c1"
      by (rule bind_child_guids)
    ultimately show ?thesis
      using c' by (intro exI [of _ c']) (simp add: bind_child_fields)
  qed
qed

subsection \<open>ProcessChildren as a whole\<close>

lemma consistent_ProcessChildren:
  "consistent c \<Longrightarrow> consistent (ProcessChildren t c children)"
  by (simp add: ProcessChildren_after_rebind consistent_bind_children consistent_after_rebind)

lemma consistent_SetUpdater: "consistent (SetUpdater c f) = consistent c"
  by (simp add: SetUpdater_def consistent_def entries_ok_def bindings_ok_def)

lemma consistent_CanRecover: "consistent (c\<lparr>CanRecover := b\<rparr>) = consistent c"
  by (simp add: consistent_def entries_ok_def bindings_ok_def)

lemma consistent_exec: "consistent c \<Longrightarrow> consistent (exec c x)"
  by (cases x)
    (simp_all add: consistent_ProcessChildren consistent_RegistryComponent
      consistent_UpdateComponent consistent_UnlistComponent consistent_SetUpdater
      consistent_CanRecover)

lemma consistent_run: "consistent c \<Longrightarrow> consistent (run xs c)"
  by (induction xs c rule: run.induct) (simp_all add: consistent_exec)

subsection \<open>Entries are only removed by UnlistComponent\<close>

lemma bind_child_keeps:
  assumes "entries_ok c"
  shows "set (map fst (AllComponents c)) \<subseteq> set (map fst (AllComponents (bind_child t c k child)))"
proof (cases "map_of (CurrentRendered c) k")
  case (Some u)
  then show ?thesis by (simp add: bind_child_bound)
next
  case None
  have r: "map fst (AllComponents (recover c k child cs)) = map fst (AllComponents c)" for cs
    by (simp add: recover_def UpdateComponent_keys)
  have n: "set (map fst (AllComponents c)) \<subseteq> set (map fst (AllComponents (RegistryComponent c child k)))"
    using assms by (auto simp: RegistryComponent_entries)
  show ?thesis
  proof (cases "CanRecover c")
    case True
    show ?thesis
    proof (cases "GetRenderedComponentByKey t c k")
      case found: (Some cs)
      with None True have "bind_child t c k child = recover c k child cs"
        by (simp add: bind_child_unbound)
      then show ?thesis by (simp only: r)
    next
      case none: None
      with None True have "bind_child t c k child = RegistryComponent c child k"
        by (simp add: bind_child_unbound)
      with n show ?thesis by simp
    qed
  next
    case False
    with None have "bind_child t c k child = RegistryComponent c child k"
      by (simp add: bind_child_unbound)
    with n show ?thesis by simp
  qed
qed

lemma bind_children_keeps:
  "consistent c \<Longrightarrow>
     set (map fst (AllComponents c)) \<subseteq> set (map fst (AllComponents (bind_children t children c)))"
proof (induction t children c rule: bind_children.induct)
  case (1 t c)
  show ?case by simp
next
  case (2 t key child rest c)
  from "2.prems" have "entries_ok c" by (simp add: consistent_def)
  then have "set (map fst (AllComponents c)) \<subseteq> set (map fst (AllComponents (bind_child t c key child)))"
    by (rule bind_child_keeps)
  moreover from "2.prems" have "consistent (bind_child t c key child)"
    by (rule consistent_bind_child)
  ultimately show ?case
    using "2.IH" by auto
qed

lemma ProcessChildren_keeps:
  assumes "consistent c"
  shows "set (map fst (AllComponents c)) \<subseteq> set (map fst (AllComponents (ProcessChildren t c children)))"
proof -
  have "set (map fst (AllComponents (after_rebind t c children)))
      \<subseteq> set (map fst (AllComponents (bind_children t (lua_pairs (children_order t) children) (after_rebind t c children))))"
    using assms by (intro bind_children_keeps consistent_after_rebind)
  then show ?thesis
    by (simp add: ProcessChildren_after_rebind after_rebind_fields)
qed

lemma GetComponent_None_iff: "GetComponent c u = None \<longleftrightarrow> u \<notin> set (map fst (AllComponents c))"
  by (simp add: GetComponent_def map_of_eq_None_iff)

lemma exec_keeps:
  assumes "consistent c" "GetComponent c u \<noteq> None" "x \<noteq> CallUnlistComponent u"
  shows "GetComponent (exec c x) u \<noteq> None"
proof (cases x)
  case (CallProcessChildren t children)
  with assms(1,2) ProcessChildren_keeps [where c = c and t = t and children = children] show ?thesis
    by (auto simp: GetComponent_None_iff)
next
  case (CallRegistryComponent e k)
  with assms(2) show ?thesis
    by (simp add: RegistryComponent_get)
next
  case (CallUpdateComponent uid e)
  with assms(2) show ?thesis
    by (auto simp: UpdateComponent_get)
next
  case (CallUnlistComponent uid)
  with assms(3) have "uid \<noteq> u" by simp
  with assms(2) CallUnlistComponent show ?thesis
    by (simp add: UnlistComponent_def Let_def GetComponent_def RemoveRenderedByUID_fields
        AList.delete_conv')
next
  case (CallSetUpdater f)
  with assms(2) show ?thesis by (simp add: SetUpdater_def GetComponent_def)
next
  case (AssignCanRecover b)
  with assms(2) show ?thesis by (simp add: GetComponent_def)
qed

lemma run_keeps:
  "consistent c \<Longrightarrow> GetComponent c u \<noteq> None \<Longrightarrow> CallUnlistComponent u \<notin> set xs \<Longrightarrow>
     GetComponent (run xs c) u \<noteq> None"
proof (induction xs c rule: run.induct)
  case (1 c)
  then show ?case by simp
next
  case (2 x xs c)
  from "2.prems" have "x \<noteq> CallUnlistComponent u" by auto
  with "2.prems"(1,2) have "GetComponent (exec c x) u \<noteq> None"
    by (rule exec_keeps)
  moreover from "2.prems"(1) have "consistent (exec c x)"
    by (rule consistent_exec)
  ultimately show ?case
    using "2.IH" "2.prems"(3) by simp
qed

subsection \<open>Rendering\<close>

lemma render_component_shape:
  "\<exists>el s'. render_component (u, cs) (acc, s) =
     (AList.update u (Fragment [(Key cs, el)]) acc, s')"
  by (cases "elem_props (Element cs)") (auto simp: render_component_def Let_def split_beta)

lemma rendered_keys_append [simp]:
  "rendered_keys (xs @ ys) = rendered_keys xs @ rendered_keys ys"
  by (simp add: rendered_keys_def)

lemma map_fst_rendered_keys [simp]: "map fst (rendered_keys r) = map fst r"
  by (simp add: rendered_keys_def split_beta)

lemma fold_render_component_keys:
  "distinct (map fst acc @ map fst xs) \<Longrightarrow>
     rendered_keys (fst (fold render_component xs (acc, s))) =
       rendered_keys acc @ map (\<lambda>(u, cs). (u, [Key cs])) xs"
proof (induction xs arbitrary: acc s)
  case Nil
  show ?case by simp
next
  case (Cons x xs)
  obtain u cs where x: "x = (u, cs)" by (cases x)
  obtain el s' where step: "render_component (u, cs) (acc, s) =
      (AList.update u (Fragment [(Key cs, el)]) acc, s')"
    using render_component_shape by blast
  from Cons.prems x have "u \<notin> fst ` set acc" by auto
  then have upd: "AList.update u (Fragment [(Key cs, el)]) acc = acc @ [(u, Fragment [(Key cs, el)])]"
    by (rule update_fresh)
  from Cons.prems x have "distinct (map fst (acc @ [(u, Fragment [(Key cs, el)])]) @ map fst xs)"
    by auto
  then have "rendered_keys (fst (fold render_component xs (acc @ [(u, Fragment [(Key cs, el)])], s'))) =
       rendered_keys (acc @ [(u, Fragment [(Key cs, el)])]) @ map (\<lambda>(u, cs). (u, [Key cs])) xs"
    by (rule Cons.IH)
  with x step upd show ?case
    by (simp add: rendered_keys_def)
qed

lemma RenderComponents_keys:
  assumes "distinct (map fst (AllComponents c))"
  shows "rendered_keys (fst (RenderComponents t c s)) =
           map (\<lambda>(u, cs). (u, [Key cs])) (lua_pairs (components_order t) (AllComponents c))"
proof -
  from assms have "distinct (map fst [] @ map fst (lua_pairs (components_order t) (AllComponents c)))"
    by simp
  then have "rendered_keys (fst (fold render_component
        (lua_pairs (components_order t) (AllComponents c)) ([], s))) =
      rendered_keys [] @
        map (\<lambda>(u, cs). (u, [Key cs])) (lua_pairs (components_order t) (AllComponents c))"
    by (rule fold_render_component_keys)
  then show ?thesis
    by (simp add: RenderComponents_def rendered_keys_def)
qed

lemma RenderComponents_member:
  assumes "entries_ok c" "GetComponent c u = Some cs"
  shows "(u, [Key cs]) \<in> set (rendered_keys (fst (RenderComponents t c s)))"
proof -
  from assms(2) have "(u, cs) \<in> set (AllComponents c)"
    unfolding GetComponent_def by (rule map_of_SomeD)
  then have "(u, cs) \<in> set (lua_pairs (components_order t) (AllComponents c))"
    by simp
  then have "(\<lambda>(u, cs). (u, [Key cs])) (u, cs) \<in>
      set (map (\<lambda>(u, cs). (u, [Key cs])) (lua_pairs (components_order t) (AllComponents c)))"
    unfolding set_map by (rule imageI)
  with assms(1) show ?thesis
    by (simp add: RenderComponents_keys entries_ok_def)
qed

lemma RenderComponents_fst_keys:
  assumes "entries_ok c"
  shows "fst ` set (fst (RenderComponents t c s)) = fst ` set (AllComponents c)"
proof -
  from assms have "map fst (rendered_keys (fst (RenderComponents t c s))) =
      map fst (map (\<lambda>(u, cs). (u, [Key cs])) (lua_pairs (components_order t) (AllComponents c)))"
    by (simp only: RenderComponents_keys entries_ok_def)
  then have "map fst (fst (RenderComponents t c s)) =
      map fst (lua_pairs (components_order t) (AllComponents c))"
    by (simp add: split_beta)
  then have "set (map fst (fst (RenderComponents t c s))) =
      set (map fst (lua_pairs (components_order t) (AllComponents c)))"
    by (rule arg_cong)
  then show ?thesis by simp
qed

subsection \<open>Keys of children without a binding\<close>

lemma entries_with_key_active:
  assumes "entries_ok c" "(u, cs) \<in> set (entries_with_key key c)"
  shows "IsComponentActive c u \<longleftrightarrow> map_of (CurrentRendered c) key = Some u"
proof -
  from assms have "GetComponent c u = Some cs" "Key cs = key"
    by (simp_all add: entries_with_key_mem)
  moreover from this assms(1) have "UID cs = u" by (auto dest: entries_okD)
  ultimately show ?thesis
    by (simp add: IsComponentActive_iff)
qed

lemma ProcessChildren_unbound:
  assumes "consistent c" "distinct (map fst children)" "map_of children key = Some child"
    and "map_of (CurrentRendered c) key = None"
  shows "\<exists>c'. consistent c' \<and> map_of (CurrentRendered c') key = None \<and>
           entries_with_key key c' = entries_with_key key c \<and>
           CanRecover c' = CanRecover c \<and> GeneratedGUIDs c \<le> GeneratedGUIDs c' \<and>
           map_of (CurrentRendered (ProcessChildren t c children)) key =
             map_of (CurrentRendered (bind_child t c' key child)) key \<and>
           entries_with_key key (ProcessChildren t c children) =
             entries_with_key key (bind_child t c' key child)"
proof -
  let ?ar = "after_rebind t c children" and ?walk = "lua_pairs (children_order t) children"
  from assms(1) have b: "bindings_ok c" by (simp add: consistent_def)
  have ar: "consistent ?ar"
    using assms(1) by (rule consistent_after_rebind)
  have unbound: "map_of (CurrentRendered ?ar) key = None"
    using assms(4) by (simp add: after_rebind_bindings [OF b])
  have same: "entries_with_key key ?ar = entries_with_key key c"
    using assms(1,4) by (simp add: after_rebind_entries_with_key)
  from assms(2) have "map_of ?walk = map_of children"
    by (rule map_of_lua_pairs)
  with assms(3) have walk: "map_of ?walk key = Some child" by simp
  from bind_children_unbound [OF ar unbound walk, where t = t]
  show ?thesis
    by (simp add: ProcessChildren_after_rebind same after_rebind_fields)
qed

lemma set_map_ran: "set (AList.map_ran f al) = (\<lambda>(k, v). (k, f k v)) ` set al"
  by (induction al) auto

lemma ProcessChildren_recover:
  assumes "consistent c" "distinct (map fst children)" "map_of children key = Some child"
    and "map_of (CurrentRendered c) key = None"
    and "CanRecover c" "entries_with_key key c \<noteq> []"
  shows "\<exists>uid component. (uid, component) \<in> set (entries_with_key key c) \<and>
           map_of (CurrentRendered (ProcessChildren t c children)) key = Some uid \<and>
           entries_with_key key (ProcessChildren t c children) =
             AList.map_ran (\<lambda>u cs. if u = uid then cs\<lparr>Element := child\<rparr> else cs)
               (entries_with_key key c)"
proof -
  from ProcessChildren_unbound [OF assms(1-4), where t = t]
  obtain c' where c': "consistent c'" "map_of (CurrentRendered c') key = None"
    "entries_with_key key c' = entries_with_key key c" "CanRecover c' = CanRecover c"
    "map_of (CurrentRendered (ProcessChildren t c children)) key =
       map_of (CurrentRendered (bind_child t c' key child)) key"
    "entries_with_key key (ProcessChildren t c children) =
       entries_with_key key (bind_child t c' key child)"
    by blast
  from c'(1) have e: "entries_ok c'" by (simp add: consistent_def)
  from c'(3) assms(6) have "GetRenderedComponentByKey t c' key \<noteq> None"
    by (simp add: GetRenderedComponentByKey_None_iff)
  then obtain component where found: "GetRenderedComponentByKey t c' key = Some component"
    by auto
  with e have cs: "GetComponent c' (UID component) = Some component" "Key component = key"
    by (simp_all add: GetRenderedComponentByKey_Some)
  with e have "(UID component, component) \<in> set (entries_with_key key c')"
    by (simp add: entries_with_key_mem)
  with c'(3) have mem: "(UID component, component) \<in> set (entries_with_key key c)"
    by simp
  from c'(2,4) assms(5) found have step: "bind_child t c' key child = recover c' key child component"
    by (simp add: bind_child_unbound)
  have "map_of (CurrentRendered (recover c' key child component)) key = Some (UID component)"
    by (simp add: recover_def AList.update_conv')
  moreover have "entries_with_key key (recover c' key child component) =
      AList.map_ran (\<lambda>u cs. if u = UID component then cs\<lparr>Element := child\<rparr> else cs)
        (entries_with_key key c)"
    using e c'(3) by (simp add: recover_entries_with_key UpdateComponent_entries_with_key)
  ultimately show ?thesis
    using c'(5,6) step mem
    by (intro exI [of _ "UID component"] exI [of _ component]) simp
qed

lemma ProcessChildren_create:
  assumes "consistent c" "distinct (map fst children)" "map_of children key = Some child"
    and "map_of (CurrentRendered c) key = None"
    and "\<not> (CanRecover c \<and> entries_with_key key c \<noteq> [])"
  shows "\<exists>uid. GeneratedGUIDs c \<le> uid \<and>
           map_of (CurrentRendered (ProcessChildren t c children)) key = Some uid \<and>
           entries_with_key key (ProcessChildren t c children) =
             entries_with_key key c @ [(uid, \<lparr>Key = key, Element = child, UID = uid\<rparr>)]"
proof -
  from ProcessChildren_unbound [OF assms(1-4), where t = t]
  obtain c' where c': "consistent c'" "map_of (CurrentRendered c') key = None"
    "entries_with_key key c' = entries_with_key key c" "CanRecover c' = CanRecover c"
    "GeneratedGUIDs c \<le> GeneratedGUIDs c'"
    "map_of (CurrentRendered (ProcessChildren t c children)) key =
       map_of (CurrentRendered (bind_child t c' key child)) key"
    "entries_with_key key (ProcessChildren t c children) =
       entries_with_key key (bind_child t c' key child)"
    by blast
  from c'(1) have e: "entries_ok c'" by (simp add: consistent_def)
  from assms(5) c'(3,4) have "\<not> CanRecover c' \<or> GetRenderedComponentByKey t c' key = None"
    by (auto simp: GetRenderedComponentByKey_None_iff)
  with c'(2) have step: "bind_child t c' key child = RegistryComponent c' child key"
    by (auto simp: bind_child_unbound)
  have "map_of (CurrentRendered (RegistryComponent c' child key)) key = Some (GeneratedGUIDs c')"
    by (simp add: RegistryComponent_fields AList.update_conv')
  moreover have "entries_with_key key (RegistryComponent c' child key) =
      entries_with_key key c @
        [(GeneratedGUIDs c', \<lparr>Key = key, Element = child, UID = GeneratedGUIDs c'\<rparr>)]"
    using e c'(3) by (simp add: RegistryComponent_entries_with_key)
  ultimately show ?thesis
    using c'(5,6,7) step by (intro exI [of _ "GeneratedGUIDs c'"]) simp
qed

lemma ProcessChildren_bound:
  assumes "consistent c" "map_of (CurrentRendered c) key = Some uid"
  shows "map_of (CurrentRendered (ProcessChildren t c children)) key =
           (if map_of children key = None then None else Some uid) \<and>
         entries_with_key key (ProcessChildren t c children) =
           entries_with_key key (after_rebind t c children)"
proof -
  let ?ar = "after_rebind t c children" and ?walk = "lua_pairs (children_order t) children"
  from assms(1) have b: "bindings_ok c" by (simp add: consistent_def)
  have ar: "consistent ?ar"
    using assms(1) by (rule consistent_after_rebind)
  have bound: "map_of (CurrentRendered ?ar) key =
      (if map_of children key = None then None else Some uid)"
    using assms(2) by (simp add: after_rebind_bindings [OF b])
  have "map_of children key = None \<Longrightarrow> key \<notin> fst ` set ?walk"
    by (simp add: map_of_eq_None_iff)
  with bound have "map_of (CurrentRendered ?ar) key \<noteq> None \<or> key \<notin> fst ` set ?walk"
    by (cases "map_of children key") simp_all
  with ar have "map_of (CurrentRendered (bind_children t ?walk ?ar)) key =
        map_of (CurrentRendered ?ar) key \<and>
      entries_with_key key (bind_children t ?walk ?ar) = entries_with_key key ?ar"
    by (rule bind_children_stable)
  with bound show ?thesis
    by (simp add: ProcessChildren_after_rebind)
qed

lemmas eval_defs = ProcessChildren_def bind_child_def RegistryComponent_def UpdateComponent_def
  GetRenderedComponentByKey_def stored_order_def reverse_order_def lua_pairs_id lua_pairs_rev

lemma shown_again_eq:
  "shown_again =
     \<lparr>CanRecover = False,
      AllComponents = [(0, \<lparr>Key = keyA, Element = window1, UID = 0\<rparr>),
                       (1, \<lparr>Key = keyA, Element = window2, UID = 1\<rparr>)],
      CurrentRendered = [(keyA, 1)], Updater = DefaultUpdater,
      GeneratedGUIDs = 2, UpdaterCalls = []\<rparr>"
  by (simp add: shown_again_def dropped_A_eq eval_defs)

lemma dropped_again_eq:
  "dropped_again =
     \<lparr>CanRecover = False,
      AllComponents = [(0, \<lparr>Key = keyA, Element = window1, UID = 0\<rparr>),
                       (1, \<lparr>Key = keyA, Element = window2, UID = 1\<rparr>)],
      CurrentRendered = [], Updater = DefaultUpdater,
      GeneratedGUIDs = 2, UpdaterCalls = []\<rparr>"
  by (simp add: dropped_again_def shown_again_eq eval_defs)

lemma recovering_eq:
  "recovering =
     \<lparr>CanRecover = True,
      AllComponents = [(0, \<lparr>Key = keyA, Element = window1, UID = 0\<rparr>),
                       (1, \<lparr>Key = keyA, Element = window2, UID = 1\<rparr>)],
      CurrentRendered = [], Updater = DefaultUpdater,
      GeneratedGUIDs = 2, UpdaterCalls = []\<rparr>"
  by (simp add: recovering_def dropped_again_eq)


lemma consistent_examples:
  "consistent shown_A" "consistent dropped_A" "consistent shown_again"
  "consistent dropped_again" "consistent recovering"
  by (simp_all add: consistent_def entries_ok_def bindings_ok_def shown_A_eq dropped_A_eq
      shown_again_eq dropped_again_eq recovering_eq)

lemma entries_ok_examples:
  "entries_ok shown_again" "entries_ok dropped_again"
  using consistent_examples by (simp_all add: consistent_def)

lemma recovering_A_eq:
  "recovering_A =
     \<lparr>CanRecover = True,
      AllComponents = [(0, \<lparr>Key = keyA, Element = window1, UID = 0\<rparr>)],
      CurrentRendered = [], Updater = DefaultUpdater,
      GeneratedGUIDs = 1, UpdaterCalls = []\<rparr>"
  by (simp add: recovering_A_def dropped_A_eq)

lemma consistent_recovering_A: "consistent recovering_A"
  by (simp add: consistent_def entries_ok_def bindings_ok_def recovering_A_eq)


lemma lua_pairs_single [simp]: "lua_pairs order [x] = [x]"
  by (simp add: lua_pairs_def)

lemma render_shown_A:
  "RenderComponents t shown_A app_store =
     ([(0, Fragment [(keyA, \<lparr>elem_type = ''Window'', elem_props = PropsAt 2\<rparr>)])],
      \<lparr>objects = (objects app_store)
         (0 := \<lparr>LifetimeInternal = Some This, UIDInternal = Some 0,
                 own_fields = [''title'' \<mapsto> ''one'']\<rparr>,
          2 := \<lparr>LifetimeInternal = Some This, UIDInternal = Some 0,
                 own_fields = [''title'' \<mapsto> ''one'']\<rparr>),
       next_addr = 3\<rparr>)"
  by (simp add: RenderComponents_def render_component_def shown_A_eq window1_def app_store_def
      createElement_def empty_props_def Let_def)

text \<open>What recovery does for a key without a binding, whichever entry the walk finds.\<close>

lemma recovered_facts:
  assumes "consistent c" "distinct (map fst children)" "map_of children key = Some child"
    and "map_of (CurrentRendered c) key = None"
    and "CanRecover c" "entries_with_key key c \<noteq> []"
  shows "\<exists>uid component.
           (uid, component) \<in> set (entries_with_key key c) \<and>
           map_of (CurrentRendered (ProcessChildren t c children)) key = Some uid \<and>
           IsComponentActive (ProcessChildren t c children) uid \<and>
           GetComponent (ProcessChildren t c children) uid = Some (component\<lparr>Element := child\<rparr>) \<and>
           fst ` set (entries_with_key key (ProcessChildren t c children)) =
             fst ` set (entries_with_key key c) \<and>
           length (entries_with_key key (ProcessChildren t c children)) =
             length (entries_with_key key c) \<and>
           (\<forall>(u, cs) \<in> set (entries_with_key key c). u \<noteq> uid \<longrightarrow>
              \<not> IsComponentActive (ProcessChildren t c children) u \<and>
              GetComponent (ProcessChildren t c children) u = Some cs)"
proof -
  let ?c' = "ProcessChildren t c children"
  have "consistent ?c'" using assms(1) by (rule consistent_ProcessChildren)
  then have e': "entries_ok ?c'" by (simp add: consistent_def)
  from ProcessChildren_recover [OF assms, where t = t]
  obtain uid component where mem: "(uid, component) \<in> set (entries_with_key key c)"
    and bound: "map_of (CurrentRendered ?c') key = Some uid"
    and ewk: "entries_with_key key ?c' =
      AList.map_ran (\<lambda>u cs. if u = uid then cs\<lparr>Element := child\<rparr> else cs)
        (entries_with_key key c)"
    by blast
  from mem have "(uid, component\<lparr>Element := child\<rparr>) \<in> set (entries_with_key key ?c')"
    unfolding ewk set_map_ran by force
  with e' bound have active: "IsComponentActive ?c' uid"
    and content: "GetComponent ?c' uid = Some (component\<lparr>Element := child\<rparr>)"
    by (simp_all add: entries_with_key_active entries_with_key_mem)
  from ewk have "map fst (entries_with_key key ?c') = map fst (entries_with_key key c)"
    by simp
  then have "set (map fst (entries_with_key key ?c')) = set (map fst (entries_with_key key c))"
    and len: "length (map fst (entries_with_key key ?c')) = length (map fst (entries_with_key key c))"
    by simp_all
  then have ids: "fst ` set (entries_with_key key ?c') = fst ` set (entries_with_key key c)"
    by simp
  have others: "\<not> IsComponentActive ?c' u \<and> GetComponent ?c' u = Some cs"
    if "(u, cs) \<in> set (entries_with_key key c)" "u \<noteq> uid" for u cs
  proof -
    from that have m: "(u, cs) \<in> set (entries_with_key key ?c')"
      unfolding ewk set_map_ran by force
    with e' bound that(2) have "\<not> IsComponentActive ?c' u"
      by (simp add: entries_with_key_active)
    moreover from e' m have "GetComponent ?c' u = Some cs"
      by (simp add: entries_with_key_mem)
    ultimately show ?thesis ..
  qed
  from mem bound active content ids len others show ?thesis
    by (intro exI [of _ uid] exI [of _ component]) auto
qed

section \<open>Reconciliation\<close>

text \<open>
  The theorems about \<open>ProcessChildren\<close> are stated for consistent controllers. Every state
  that the calls of \<open>exec\<close> reach from a new controller is consistent (lemmas
  \<open>consistent_new\<close> and \<open>consistent_run\<close>).
\<close>

text \<open>
  C1. Identity continuity. If a key is bound to an identity and is among the children
  passed to \<open>ProcessChildren\<close>, then afterwards the key is still bound to the same identity,
  the bound entry is the old entry with its \<open>Element\<close> replaced by the new child, and
  \<open>RenderComponents\<close> lists the entry under the same physical key, its identity, before and
  after the pass.
\<close>

theorem ProcessChildren_identity_continuity:
  assumes "consistent c" "map_of (CurrentRendered c) key = Some uid"
    and "map_of children key = Some child"
  shows "map_of (CurrentRendered (ProcessChildren t c children)) key = Some uid \<and>
         (\<exists>component. GetComponent c uid = Some component \<and>
            Key component = key \<and> UID component = uid \<and>
            GetComponent (ProcessChildren t c children) uid = Some (component\<lparr>Element := child\<rparr>)) \<and>
         (uid, [key]) \<in> set (rendered_keys (fst (RenderComponents r c s))) \<and>
         (uid, [key]) \<in> set (rendered_keys (fst (RenderComponents r' (ProcessChildren t c children) s')))"
proof -
  let ?ar = "after_rebind t c children" and ?c' = "ProcessChildren t c children"
  from assms(1) have e: "entries_ok c" and b: "bindings_ok c"
    by (simp_all add: consistent_def)
  from b assms(2) obtain component where comp: "GetComponent c uid = Some component" "Key component = key"
    by (auto dest: bindings_okD)
  with e have uid: "UID component = uid" by (auto dest: entries_okD)
  have "consistent ?ar" using assms(1) by (rule consistent_after_rebind)
  then have ear: "entries_ok ?ar" by (simp add: consistent_def)
  have "consistent ?c'" using assms(1) by (rule consistent_ProcessChildren)
  then have e': "entries_ok ?c'" by (simp add: consistent_def)
  from assms(2) have "(key, uid) \<in> set (CurrentRendered c)"
    by (rule map_of_SomeD)
  with comp assms(3) have "GetComponent ?ar uid = Some (component\<lparr>Element := child\<rparr>)"
    by (simp add: after_rebind_get [OF b] rebound_def)
  with ear comp(2) have "(uid, component\<lparr>Element := child\<rparr>) \<in> set (entries_with_key key ?ar)"
    by (simp add: entries_with_key_mem)
  moreover from ProcessChildren_bound [OF assms(1,2), of t children] assms(3)
  have bound: "map_of (CurrentRendered ?c') key = Some uid"
    and "entries_with_key key ?c' = entries_with_key key ?ar"
    by simp_all
  ultimately have "(uid, component\<lparr>Element := child\<rparr>) \<in> set (entries_with_key key ?c')"
    by simp
  with e' have after: "GetComponent ?c' uid = Some (component\<lparr>Element := child\<rparr>)"
    by (simp add: entries_with_key_mem)
  have "(uid, [Key component]) \<in> set (rendered_keys (fst (RenderComponents r c s)))"
    using e comp(1) by (rule RenderComponents_member)
  moreover have "(uid, [Key (component\<lparr>Element := child\<rparr>)])
      \<in> set (rendered_keys (fst (RenderComponents r' ?c' s')))"
    using e' after by (rule RenderComponents_member)
  ultimately show ?thesis
    using bound comp uid after by simp
qed

theorem ProcessChildren_identity_continuity_witness:
  "consistent shown_A \<and> map_of (CurrentRendered shown_A) keyA = Some 0 \<and>
   map_of [(keyA, window2)] keyA = Some window2 \<and>
   map_of (CurrentRendered (ProcessChildren stored_order shown_A [(keyA, window2)])) keyA = Some 0 \<and>
   GetComponent shown_A 0 = Some \<lparr>Key = keyA, Element = window1, UID = 0\<rparr> \<and>
   GetComponent (ProcessChildren stored_order shown_A [(keyA, window2)]) 0 =
     Some \<lparr>Key = keyA, Element = window2, UID = 0\<rparr> \<and>
   (0, [keyA]) \<in> set (rendered_keys (fst (RenderComponents stored_order shown_A app_store))) \<and>
   (0, [keyA]) \<in> set (rendered_keys
      (fst (RenderComponents stored_order (ProcessChildren stored_order shown_A [(keyA, window2)]) app_store)))"
proof -
  have h1: "consistent shown_A" by (rule consistent_examples)
  have h2: "map_of (CurrentRendered shown_A) keyA = Some 0" by (simp add: shown_A_eq)
  have h3: "map_of [(keyA, window2)] keyA = Some window2" by simp
  have g: "GetComponent shown_A 0 = Some \<lparr>Key = keyA, Element = window1, UID = 0\<rparr>"
    by (simp add: shown_A_eq GetComponent_def)
  from ProcessChildren_identity_continuity [OF h1 h2 h3, where t = stored_order and r = stored_order and s = app_store
      and r' = stored_order and s' = app_store] g h1 h2 h3
  show ?thesis by auto
qed

text \<open>
  C2. Detach, not delete. If a key is bound to an identity and is absent from the children,
  then after \<open>ProcessChildren\<close> the key has no binding and \<open>IsComponentActive\<close> of that
  identity is false, but the entry is unchanged in \<open>AllComponents\<close> and is listed by
  \<open>RenderComponents\<close>. It stays listed after any sequence of further calls that does
  not contain \<open>UnlistComponent\<close> on it, and that call removes it from \<open>AllComponents\<close>
  and from the rendered output.
\<close>

theorem ProcessChildren_detach_not_delete:
  assumes "consistent c" "map_of (CurrentRendered c) key = Some uid"
    and "map_of children key = None"
  shows "map_of (CurrentRendered (ProcessChildren t c children)) key = None \<and>
         \<not> IsComponentActive (ProcessChildren t c children) uid \<and>
         GetComponent c uid \<noteq> None \<and>
         GetComponent (ProcessChildren t c children) uid = GetComponent c uid \<and>
         (uid, [key]) \<in> set (rendered_keys (fst (RenderComponents r (ProcessChildren t c children) s))) \<and>
         (\<forall>xs. CallUnlistComponent uid \<notin> set xs \<longrightarrow>
            uid \<in> fst ` set (fst (RenderComponents r' (run xs (ProcessChildren t c children)) s'))) \<and>
         GetComponent (UnlistComponent (ProcessChildren t c children) uid) uid = None \<and>
         uid \<notin> fst ` set (fst (RenderComponents r'' (UnlistComponent (ProcessChildren t c children) uid) s''))"
proof -
  let ?ar = "after_rebind t c children" and ?c' = "ProcessChildren t c children"
  from assms(1) have e: "entries_ok c" and b: "bindings_ok c"
    by (simp_all add: consistent_def)
  from b assms(2) obtain component where comp: "GetComponent c uid = Some component" "Key component = key"
    by (auto dest: bindings_okD)
  with e have uid: "UID component = uid" by (auto dest: entries_okD)
  have "consistent ?ar" using assms(1) by (rule consistent_after_rebind)
  then have ear: "entries_ok ?ar" by (simp add: consistent_def)
  have c': "consistent ?c'" using assms(1) by (rule consistent_ProcessChildren)
  then have e': "entries_ok ?c'" by (simp add: consistent_def)
  from comp assms(3) have "GetComponent ?ar uid = Some component"
    by (simp add: after_rebind_get [OF b] rebound_def)
  with ear comp(2) have "(uid, component) \<in> set (entries_with_key key ?ar)"
    by (simp add: entries_with_key_mem)
  moreover from ProcessChildren_bound [OF assms(1,2), of t children] assms(3)
  have unbound: "map_of (CurrentRendered ?c') key = None"
    and "entries_with_key key ?c' = entries_with_key key ?ar"
    by simp_all
  ultimately have mem: "(uid, component) \<in> set (entries_with_key key ?c')"
    by simp
  with e' have after: "GetComponent ?c' uid = Some component"
    by (simp add: entries_with_key_mem)
  from e' mem unbound have inactive: "\<not> IsComponentActive ?c' uid"
    by (simp add: entries_with_key_active)
  have shown: "(uid, [Key component]) \<in> set (rendered_keys (fst (RenderComponents r ?c' s)))"
    using e' after by (rule RenderComponents_member)
  have stays: "uid \<in> fst ` set (fst (RenderComponents r' (run xs ?c') s'))"
    if "CallUnlistComponent uid \<notin> set xs" for xs
  proof -
    from c' have "consistent (run xs ?c')" by (rule consistent_run)
    then have "entries_ok (run xs ?c')" by (simp add: consistent_def)
    then have "fst ` set (fst (RenderComponents r' (run xs ?c') s')) =
        fst ` set (AllComponents (run xs ?c'))"
      by (rule RenderComponents_fst_keys)
    moreover from after have "GetComponent ?c' uid \<noteq> None" by simp
    with c' have "GetComponent (run xs ?c') uid \<noteq> None"
      using that by (rule run_keeps)
    then have "uid \<in> fst ` set (AllComponents (run xs ?c'))"
      by (simp add: GetComponent_None_iff)
    ultimately show ?thesis
      by simp
  qed
  have gone: "GetComponent (UnlistComponent ?c' uid) uid = None"
    using inactive
    by (simp add: UnlistComponent_def Let_def GetComponent_def RemoveRenderedByUID_fields
        AList.delete_conv')
  from c' have "consistent (UnlistComponent ?c' uid)" by (rule consistent_UnlistComponent)
  then have "entries_ok (UnlistComponent ?c' uid)" by (simp add: consistent_def)
  then have "fst ` set (fst (RenderComponents r'' (UnlistComponent ?c' uid) s'')) =
      fst ` set (AllComponents (UnlistComponent ?c' uid))"
    by (rule RenderComponents_fst_keys)
  moreover from gone have "uid \<notin> fst ` set (AllComponents (UnlistComponent ?c' uid))"
    by (simp add: GetComponent_None_iff)
  ultimately have unrendered:
    "uid \<notin> fst ` set (fst (RenderComponents r'' (UnlistComponent ?c' uid) s''))"
    by simp
  from unbound inactive comp after shown stays gone unrendered show ?thesis
    by simp
qed

theorem ProcessChildren_detach_not_delete_witness:
  "consistent shown_A \<and> map_of (CurrentRendered shown_A) keyA = Some 0 \<and>
   map_of [] keyA = (None :: ReactElement option) \<and>
   map_of (CurrentRendered (ProcessChildren stored_order shown_A [])) keyA = None \<and>
   \<not> IsComponentActive (ProcessChildren stored_order shown_A []) 0 \<and>
   GetComponent (ProcessChildren stored_order shown_A []) 0 = GetComponent shown_A 0 \<and>
   (0, [keyA]) \<in> set (rendered_keys
      (fst (RenderComponents stored_order (ProcessChildren stored_order shown_A []) app_store))) \<and>
   CallUnlistComponent 0 \<notin> set [CallProcessChildren reverse_order [], CallUnlistComponent 3] \<and>
   0 \<in> fst ` set (fst (RenderComponents stored_order
      (run [CallProcessChildren reverse_order [], CallUnlistComponent 3]
         (ProcessChildren stored_order shown_A []))
      app_store)) \<and>
   GetComponent (UnlistComponent (ProcessChildren stored_order shown_A []) 0) 0 = None \<and>
   0 \<notin> fst ` set (fst (RenderComponents stored_order
      (UnlistComponent (ProcessChildren stored_order shown_A []) 0) app_store))"
proof -
  have h1: "consistent shown_A" by (rule consistent_examples)
  have h2: "map_of (CurrentRendered shown_A) keyA = Some 0" by (simp add: shown_A_eq)
  have h3: "map_of [] keyA = (None :: ReactElement option)" by simp
  have ne: "CallUnlistComponent 0 \<notin> set [CallProcessChildren reverse_order [], CallUnlistComponent 3]"
    by simp
  note inst = ProcessChildren_detach_not_delete [OF h1 h2 h3, where t = stored_order
      and r = stored_order and s = app_store and r' = stored_order and s' = app_store
      and r'' = stored_order and s'' = app_store]
  from inst have "\<forall>xs. CallUnlistComponent 0 \<notin> set xs \<longrightarrow>
      0 \<in> fst ` set (fst (RenderComponents stored_order
        (run xs (ProcessChildren stored_order shown_A [])) app_store))"
    by blast
  with ne have st: "0 \<in> fst ` set (fst (RenderComponents stored_order
      (run [CallProcessChildren reverse_order [], CallUnlistComponent 3]
         (ProcessChildren stored_order shown_A []))
      app_store))"
    by blast
  from inst h1 h2 h3 ne st show ?thesis by blast
qed

text \<open>
  C3. Recovery versus creation. Let a key of the children have no binding after the first
  loop (then it had none before the pass, and every entry with that key is detached). If
  \<open>CanRecover\<close> holds and such an entry exists, one of them gets the new child as content
  and the binding of the key, it is active again, and the entries with that key keep their
  identities and their number: none is created. Otherwise, always so when \<open>CanRecover\<close>
  is false, one entry with an identity not used before, that key and that child is added
  and bound, and every older entry with the key stays inactive and rendered. The children
  are a table: their keys are distinct.
\<close>

theorem ProcessChildren_recover_or_create:
  assumes "consistent c" "distinct (map fst children)" "map_of children key = Some child"
    and "map_of (CurrentRendered (after_rebind t c children)) key = None"
  shows "(CanRecover c \<and> entries_with_key key c \<noteq> [] \<longrightarrow>
           (\<exists>uid component.
              (uid, component) \<in> set (entries_with_key key c) \<and>
              \<not> IsComponentActive c uid \<and>
              map_of (CurrentRendered (ProcessChildren t c children)) key = Some uid \<and>
              IsComponentActive (ProcessChildren t c children) uid \<and>
              GetComponent (ProcessChildren t c children) uid =
                Some (component\<lparr>Element := child\<rparr>) \<and>
              fst ` set (entries_with_key key (ProcessChildren t c children)) =
                fst ` set (entries_with_key key c) \<and>
              length (entries_with_key key (ProcessChildren t c children)) =
                length (entries_with_key key c))) \<and>
         (\<not> (CanRecover c \<and> entries_with_key key c \<noteq> []) \<longrightarrow>
           (\<exists>uid. uid \<notin> fst ` set (AllComponents c) \<and>
              map_of (CurrentRendered (ProcessChildren t c children)) key = Some uid \<and>
              IsComponentActive (ProcessChildren t c children) uid \<and>
              set (entries_with_key key (ProcessChildren t c children)) =
                insert (uid, \<lparr>Key = key, Element = child, UID = uid\<rparr>)
                  (set (entries_with_key key c)) \<and>
              (\<forall>(u, cs) \<in> set (entries_with_key key c).
                 \<not> IsComponentActive (ProcessChildren t c children) u \<and>
                 (u, [key]) \<in> set (rendered_keys
                    (fst (RenderComponents r (ProcessChildren t c children) s))))))"
proof (intro conjI impI)
  let ?c' = "ProcessChildren t c children"
  from assms have unbound: "map_of (CurrentRendered c) key = None"
    by (simp add: after_rebind_bindings consistent_def)
  assume rec: "CanRecover c \<and> entries_with_key key c \<noteq> []"
  from assms(1) have e: "entries_ok c" by (simp add: consistent_def)
  from rec have cr: "CanRecover c" and some: "entries_with_key key c \<noteq> []"
    by simp_all
  from recovered_facts [OF assms(1-3) unbound cr some, where t = t]
  obtain uid component where mem: "(uid, component) \<in> set (entries_with_key key c)"
    and facts: "map_of (CurrentRendered ?c') key = Some uid"
      "IsComponentActive ?c' uid"
      "GetComponent ?c' uid = Some (component\<lparr>Element := child\<rparr>)"
      "fst ` set (entries_with_key key ?c') = fst ` set (entries_with_key key c)"
      "length (entries_with_key key ?c') = length (entries_with_key key c)"
    by blast
  from e mem unbound have "\<not> IsComponentActive c uid"
    by (simp add: entries_with_key_active)
  with mem facts show "\<exists>uid component.
      (uid, component) \<in> set (entries_with_key key c) \<and>
      \<not> IsComponentActive c uid \<and>
      map_of (CurrentRendered ?c') key = Some uid \<and>
      IsComponentActive ?c' uid \<and>
      GetComponent ?c' uid = Some (component\<lparr>Element := child\<rparr>) \<and>
      fst ` set (entries_with_key key ?c') = fst ` set (entries_with_key key c) \<and>
      length (entries_with_key key ?c') = length (entries_with_key key c)"
    by blast
next
  let ?c' = "ProcessChildren t c children"
  from assms have unbound: "map_of (CurrentRendered c) key = None"
    by (simp add: after_rebind_bindings consistent_def)
  assume n: "\<not> (CanRecover c \<and> entries_with_key key c \<noteq> [])"
  from assms(1) have e: "entries_ok c" by (simp add: consistent_def)
  have "consistent ?c'" using assms(1) by (rule consistent_ProcessChildren)
  then have e': "entries_ok ?c'" by (simp add: consistent_def)
  from ProcessChildren_create [OF assms(1-3) unbound n, where t = t]
  obtain uid where le: "GeneratedGUIDs c \<le> uid"
    and bound: "map_of (CurrentRendered ?c') key = Some uid"
    and ewk: "entries_with_key key ?c' =
      entries_with_key key c @ [(uid, \<lparr>Key = key, Element = child, UID = uid\<rparr>)]"
    by blast
  have below: "u < GeneratedGUIDs c" if "u \<in> fst ` set (AllComponents c)" for u
  proof -
    from that obtain cs where "(u, cs) \<in> set (AllComponents c)" by auto
    with e have "GetComponent c u = Some cs"
      unfolding GetComponent_def by (simp add: entries_ok_def map_of_is_SomeI)
    with e show ?thesis by (auto dest: entries_okD)
  qed
  with le have fresh: "uid \<notin> fst ` set (AllComponents c)" by fastforce
  from ewk have "(uid, \<lparr>Key = key, Element = child, UID = uid\<rparr>) \<in> set (entries_with_key key ?c')"
    by simp
  with e' bound have active: "IsComponentActive ?c' uid"
    by (simp add: entries_with_key_active)
  from ewk have added: "set (entries_with_key key ?c') =
      insert (uid, \<lparr>Key = key, Element = child, UID = uid\<rparr>) (set (entries_with_key key c))"
    by simp
  have old: "\<not> IsComponentActive ?c' u \<and>
      (u, [key]) \<in> set (rendered_keys (fst (RenderComponents r ?c' s)))"
    if "(u, cs) \<in> set (entries_with_key key c)" for u cs
  proof -
    from that have "u \<in> fst ` set (AllComponents c)"
      by (force simp: entries_with_key_def)
    with fresh have "u \<noteq> uid" by auto
    from that ewk have mem: "(u, cs) \<in> set (entries_with_key key ?c')" by simp
    with e' bound \<open>u \<noteq> uid\<close> have "\<not> IsComponentActive ?c' u"
      by (simp add: entries_with_key_active)
    moreover from e' mem have "GetComponent ?c' u = Some cs" "Key cs = key"
      by (simp_all add: entries_with_key_mem)
    with e' have "(u, [key]) \<in> set (rendered_keys (fst (RenderComponents r ?c' s)))"
      using RenderComponents_member [where c = ?c' and u = u and cs = cs and t = r and s = s]
      by simp
    ultimately show ?thesis by simp
  qed
  from fresh bound active added old
  show "\<exists>uid. uid \<notin> fst ` set (AllComponents c) \<and>
      map_of (CurrentRendered ?c') key = Some uid \<and>
      IsComponentActive ?c' uid \<and>
      set (entries_with_key key ?c') =
        insert (uid, \<lparr>Key = key, Element = child, UID = uid\<rparr>) (set (entries_with_key key c)) \<and>
      (\<forall>(u, cs) \<in> set (entries_with_key key c).
         \<not> IsComponentActive ?c' u \<and>
         (u, [key]) \<in> set (rendered_keys (fst (RenderComponents r ?c' s))))"
    by (intro exI [of _ uid]) blast
qed

theorem ProcessChildren_recover_or_create_witness:
  "consistent recovering_A \<and> distinct (map fst [(keyA, window2)]) \<and>
   map_of [(keyA, window2)] keyA = Some window2 \<and>
   map_of (CurrentRendered (after_rebind stored_order recovering_A [(keyA, window2)])) keyA = None \<and>
   CanRecover recovering_A \<and> entries_with_key keyA recovering_A \<noteq> [] \<and>
   (\<exists>uid component.
      (uid, component) \<in> set (entries_with_key keyA recovering_A) \<and>
      map_of (CurrentRendered (ProcessChildren stored_order recovering_A [(keyA, window2)])) keyA =
        Some uid \<and>
      IsComponentActive (ProcessChildren stored_order recovering_A [(keyA, window2)]) uid) \<and>
   length (entries_with_key keyA (ProcessChildren stored_order recovering_A [(keyA, window2)])) =
     length (entries_with_key keyA recovering_A) \<and>
   consistent dropped_A \<and>
   map_of (CurrentRendered (after_rebind stored_order dropped_A [(keyA, window2)])) keyA = None \<and>
   \<not> (CanRecover dropped_A \<and> entries_with_key keyA dropped_A \<noteq> []) \<and>
   (\<exists>uid. uid \<notin> fst ` set (AllComponents dropped_A) \<and>
      map_of (CurrentRendered (ProcessChildren stored_order dropped_A [(keyA, window2)])) keyA =
        Some uid \<and>
      IsComponentActive (ProcessChildren stored_order dropped_A [(keyA, window2)]) uid \<and>
      set (entries_with_key keyA (ProcessChildren stored_order dropped_A [(keyA, window2)])) =
        insert (uid, \<lparr>Key = keyA, Element = window2, UID = uid\<rparr>)
          (set (entries_with_key keyA dropped_A)))"
proof -
  have h1: "consistent recovering_A" by (rule consistent_recovering_A)
  have k1: "consistent dropped_A" by (rule consistent_examples)
  have d: "distinct (map fst [(keyA, window2)])" by simp
  have h2: "map_of [(keyA, window2)] keyA = Some window2" by simp
  have h3: "map_of (CurrentRendered (after_rebind stored_order recovering_A [(keyA, window2)])) keyA
      = None"
    and k3: "map_of (CurrentRendered (after_rebind stored_order dropped_A [(keyA, window2)])) keyA
      = None"
    by (simp_all add: after_rebind_def recovering_A_eq dropped_A_eq stored_order_def lua_pairs_id)
  have a: "CanRecover recovering_A \<and> entries_with_key keyA recovering_A \<noteq> []"
    by (simp add: recovering_A_eq entries_with_key_def)
  have b: "\<not> (CanRecover dropped_A \<and> entries_with_key keyA dropped_A \<noteq> [])"
    by (simp add: dropped_A_eq)
  from ProcessChildren_recover_or_create [OF h1 d h2 h3, where r = stored_order and s = app_store]
    ProcessChildren_recover_or_create [OF k1 d h2 k3, where r = stored_order and s = app_store]
    h1 k1 d h2 h3 k3 a b
  show ?thesis by blast
qed




section \<open>Rendering\<close>

text \<open>
  C4, as the code has it. \<open>RenderComponents\<close> returns exactly one item per entry of
  \<open>AllComponents\<close>; the physical key of each item is the \<open>UID\<close> of its entry, and the logical
  key \<open>Key\<close> appears only inside the fragment. This holds for active and detached entries
  alike. No order of the items is fixed: the loop produces them in the sequence that the
  walk of \<open>AllComponents\<close> yields, and the result is a table again.
\<close>

theorem RenderComponents_shape:
  assumes "entries_ok c"
  shows "mset (rendered_keys (fst (RenderComponents t c s))) =
           mset (map (\<lambda>(uid, component). (UID component, [Key component])) (AllComponents c)) \<and>
         distinct (map fst (fst (RenderComponents t c s))) \<and>
         fst ` set (fst (RenderComponents t c s)) = fst ` set (AllComponents c) \<and>
         length (fst (RenderComponents t c s)) = length (AllComponents c)"
proof -
  let ?walk = "lua_pairs (components_order t) (AllComponents c)"
  from assms have d: "distinct (map fst (AllComponents c))"
    and every: "\<forall>x \<in> set (AllComponents c). UID (snd x) = fst x"
    by (simp_all add: entries_ok_def list_all_iff split_beta)
  have "rendered_keys (fst (RenderComponents t c s)) =
      map (\<lambda>(uid, component). (uid, [Key component])) ?walk"
    using d by (rule RenderComponents_keys)
  also have "\<dots> = map (\<lambda>(uid, component). (UID component, [Key component])) ?walk"
    using every by (auto simp: split_beta)
  finally have walked: "rendered_keys (fst (RenderComponents t c s)) =
      map (\<lambda>(uid, component). (UID component, [Key component])) ?walk" .
  then have items: "mset (rendered_keys (fst (RenderComponents t c s))) =
      mset (map (\<lambda>(uid, component). (UID component, [Key component])) (AllComponents c))"
    by simp
  from walked have "map fst (rendered_keys (fst (RenderComponents t c s))) =
      map fst (map (\<lambda>(uid, component). (UID component, [Key component])) ?walk)"
    by simp
  also have "\<dots> = map fst ?walk"
    using every by (auto simp: split_beta)
  finally have keys: "map fst (fst (RenderComponents t c s)) = map fst ?walk"
    by simp
  from keys d have dist: "distinct (map fst (fst (RenderComponents t c s)))"
    by simp
  have ids: "fst ` set (fst (RenderComponents t c s)) = fst ` set (AllComponents c)"
    using assms by (rule RenderComponents_fst_keys)
  from keys have "length (map fst (fst (RenderComponents t c s))) = length (map fst ?walk)"
    by simp
  then have "length (fst (RenderComponents t c s)) = length ?walk"
    by simp
  also have "\<dots> = length (AllComponents c)"
    using mset_lua_pairs [of "components_order t" "AllComponents c"] by (rule mset_eq_length)
  finally have len: "length (fst (RenderComponents t c s)) = length (AllComponents c)" .
  from items dist ids len show ?thesis by simp
qed

theorem RenderComponents_shape_witness:
  "entries_ok dropped_again \<and>
   mset (rendered_keys (fst (RenderComponents reverse_order dropped_again app_store))) =
     mset [(0, [keyA]), (1, [keyA])] \<and>
   distinct (map fst (fst (RenderComponents reverse_order dropped_again app_store))) \<and>
   fst ` set (fst (RenderComponents reverse_order dropped_again app_store)) = {0, 1} \<and>
   length (fst (RenderComponents reverse_order dropped_again app_store)) = 2 \<and>
   \<not> IsComponentActive dropped_again 0 \<and> \<not> IsComponentActive dropped_again 1"
proof -
  have h: "entries_ok dropped_again" by (rule entries_ok_examples)
  have i: "\<not> IsComponentActive dropped_again 0 \<and> \<not> IsComponentActive dropped_again 1"
    by (simp add: dropped_again_eq IsComponentActive_def GetComponent_def GetRendered_def)
  have m: "map (\<lambda>(uid, component). (UID component, [Key component])) (AllComponents dropped_again)
      = [(0, [keyA]), (1, [keyA])]"
    and k: "fst ` set (AllComponents dropped_again) = {0, 1}"
    and l: "length (AllComponents dropped_again) = 2"
    by (simp_all add: dropped_again_eq insert_commute)
  from RenderComponents_shape [OF h, where t = reverse_order and s = app_store, unfolded m k l] h i
  show ?thesis
    by (elim conjE) (intro conjI, assumption+)
qed

text \<open>
  C4, as stated, fails. Entry 0 exists after the first pass, when entry 1 does not: entry 0
  was created first. With a walk that yields the entries of \<open>dropped_again\<close> in the other
  order, which is a rearrangement of its two entries, the loop produces the item of entry 1
  first.
\<close>

theorem RenderComponents_order_counterexample:
  "GetComponent shown_A 0 \<noteq> None \<and> GetComponent shown_A 1 = None \<and>
   GetComponent dropped_again 0 \<noteq> None \<and> GetComponent dropped_again 1 \<noteq> None \<and>
   mset (lua_pairs (components_order reverse_order) (AllComponents dropped_again)) =
     mset (AllComponents dropped_again) \<and>
   map fst (lua_pairs (components_order reverse_order) (AllComponents dropped_again)) = [1, 0] \<and>
   map fst (fst (RenderComponents reverse_order dropped_again app_store)) = [1, 0]"
  by (simp add: shown_A_eq dropped_again_eq GetComponent_def RenderComponents_def
      render_component_def reverse_order_def lua_pairs_rev window1_def window2_def
      createElement_def Let_def)

text \<open>
  C6. \<open>RenderComponents\<close> writes into the props table of the caller. The element
  \<open>window1\<close> refers to the table at address 0, which carries no marker before the call.
  The call returns a new element whose table, at the new address 2, holds both markers;
  but the table at address 0 holds them as well afterwards: the copy for the new element
  is taken after the two assignments.
\<close>

theorem RenderComponents_writes_caller_props:
  "AllComponents shown_A = [(0, \<lparr>Key = keyA, Element = window1, UID = 0\<rparr>)] \<and>
   elem_props window1 = PropsAt 0 \<and>
   LifetimeInternal (objects app_store 0) = None \<and>
   UIDInternal (objects app_store 0) = None \<and>
   fst (RenderComponents t shown_A app_store) =
     [(0, Fragment [(keyA, \<lparr>elem_type = ''Window'', elem_props = PropsAt 2\<rparr>)])] \<and>
   LifetimeInternal (objects (snd (RenderComponents t shown_A app_store)) 2) = Some This \<and>
   UIDInternal (objects (snd (RenderComponents t shown_A app_store)) 2) = Some 0 \<and>
   LifetimeInternal (objects (snd (RenderComponents t shown_A app_store)) 0) = Some This \<and>
   UIDInternal (objects (snd (RenderComponents t shown_A app_store)) 0) = Some 0"
  by (simp add: render_shown_A) (simp add: shown_A_eq app_store_def empty_props_def window1_def)

section \<open>The invariant of reachable states\<close>

text \<open>
  C10. In every state reached from a new controller by a sequence of calls, each binding
  names an entry of \<open>AllComponents\<close> whose \<open>Key\<close> is the bound key; two active entries
  with the same key are the same entry; every entry is stored under its own \<open>UID\<close>; and
  no call changes the \<open>UID\<close> of an entry that is there before and after it.
\<close>

theorem binding_consistency_invariant:
  assumes "c = run calls new_LifetimeController"
  shows "(\<forall>(key, uid) \<in> set (CurrentRendered c).
            \<exists>component. GetComponent c uid = Some component \<and> Key component = key) \<and>
         (\<forall>uid uid' component component'.
            GetComponent c uid = Some component \<and> GetComponent c uid' = Some component' \<and>
            Key component = Key component' \<and>
            IsComponentActive c uid \<and> IsComponentActive c uid' \<longrightarrow> uid = uid') \<and>
         (\<forall>uid component. GetComponent c uid = Some component \<longrightarrow> UID component = uid) \<and>
         (\<forall>x uid component component'.
            GetComponent c uid = Some component \<and> GetComponent (exec c x) uid = Some component'
              \<longrightarrow> UID component' = UID component)"
proof -
  have "consistent (run calls new_LifetimeController)"
    using consistent_new by (rule consistent_run)
  with assms have c: "consistent c" by simp
  then have e: "entries_ok c" and b: "bindings_ok c"
    by (simp_all add: consistent_def)
  have one: "\<exists>component. GetComponent c uid = Some component \<and> Key component = key"
    if "(key, uid) \<in> set (CurrentRendered c)" for key uid
  proof -
    from b have "distinct (map fst (CurrentRendered c))" by (simp add: bindings_ok_alt)
    from this that have "map_of (CurrentRendered c) key = Some uid"
      by (rule map_of_is_SomeI)
    with b show ?thesis by (rule bindings_okD)
  qed
  have two: "uid = uid'"
    if "GetComponent c uid = Some component" "GetComponent c uid' = Some component'"
      "Key component = Key component'" "IsComponentActive c uid" "IsComponentActive c uid'"
    for uid uid' component component'
    using that by (auto simp: IsComponentActive_iff)
  have three: "UID component = uid" if "GetComponent c uid = Some component" for uid component
    using e that by (auto dest: entries_okD)
  have four: "UID component' = UID component"
    if "GetComponent c uid = Some component" "GetComponent (exec c x) uid = Some component'"
    for x uid component component'
  proof -
    from c have "consistent (exec c x)" by (rule consistent_exec)
    then have "entries_ok (exec c x)" by (simp add: consistent_def)
    with that(2) have "UID component' = uid" by (auto dest: entries_okD)
    with three [OF that(1)] show ?thesis by simp
  qed
  from one two three four show ?thesis
    by blast
qed

theorem binding_consistency_invariant_witness:
  "shown_A = run [CallProcessChildren stored_order [(keyA, window1)]] new_LifetimeController \<and>
   (keyA, 0) \<in> set (CurrentRendered shown_A) \<and>
   GetComponent shown_A 0 = Some \<lparr>Key = keyA, Element = window1, UID = 0\<rparr> \<and>
   IsComponentActive shown_A 0 \<and>
   GetComponent (exec shown_A (CallProcessChildren stored_order [])) 0 =
     Some \<lparr>Key = keyA, Element = window1, UID = 0\<rparr>"
proof -
  have h: "shown_A = run [CallProcessChildren stored_order [(keyA, window1)]] new_LifetimeController"
    by (simp add: shown_A_def)
  have b: "(keyA, 0) \<in> set (CurrentRendered shown_A)"
    and g: "GetComponent shown_A 0 = Some \<lparr>Key = keyA, Element = window1, UID = 0\<rparr>"
    and a: "IsComponentActive shown_A 0"
    by (simp_all add: shown_A_eq IsComponentActive_def GetComponent_def GetRendered_def)
  have g': "GetComponent (exec shown_A (CallProcessChildren stored_order [])) 0 =
      Some \<lparr>Key = keyA, Element = window1, UID = 0\<rparr>"
    using dropped_A_eq [unfolded dropped_A_def] by (simp add: GetComponent_def)
  from binding_consistency_invariant [OF h] h b g a g' show ?thesis
    by blast
qed

section \<open>Removal requests\<close>

text \<open>
  C5. \<open>UnlistComponent\<close> has no error branch: it returns a controller for every
  identity. Called on an identity whose entry is active, or on an identity that names no
  entry, it leaves \<open>AllComponents\<close> and \<open>CurrentRendered\<close> as they are, so the number of
  entries is unchanged. Called on an entry that exists and is not active, it deletes
  exactly that entry.
\<close>

theorem UnlistComponent_noop_safety:
  "(IsComponentActive c uid \<or> GetComponent c uid = None \<longrightarrow>
      AllComponents (UnlistComponent c uid) = AllComponents c \<and>
      CurrentRendered (UnlistComponent c uid) = CurrentRendered c \<and>
      length (AllComponents (UnlistComponent c uid)) = length (AllComponents c)) \<and>
   (GetComponent c uid \<noteq> None \<and> \<not> IsComponentActive c uid \<longrightarrow>
      AllComponents (UnlistComponent c uid) = AList.delete uid (AllComponents c) \<and>
      GetComponent (UnlistComponent c uid) uid = None \<and>
      length (AllComponents (UnlistComponent c uid)) < length (AllComponents c))"
proof (intro conjI impI)
  assume a: "IsComponentActive c uid \<or> GetComponent c uid = None"
  show same: "AllComponents (UnlistComponent c uid) = AllComponents c"
    using a by (auto simp: UnlistComponent_def Let_def RemoveRenderedByUID_fields
        GetComponent_def map_of_eq_None_iff)
  show "CurrentRendered (UnlistComponent c uid) = CurrentRendered c"
    using a by (auto simp: UnlistComponent_def Let_def RemoveRenderedByUID_absent)
  show "length (AllComponents (UnlistComponent c uid)) = length (AllComponents c)"
    using same by simp
next
  assume b: "GetComponent c uid \<noteq> None \<and> \<not> IsComponentActive c uid"
  show d: "AllComponents (UnlistComponent c uid) = AList.delete uid (AllComponents c)"
    using b by (simp add: UnlistComponent_def Let_def RemoveRenderedByUID_fields)
  show "GetComponent (UnlistComponent c uid) uid = None"
    by (simp add: GetComponent_def d AList.delete_conv')
  from b obtain cs where "map_of (AllComponents c) uid = Some cs"
    by (auto simp: GetComponent_def)
  then have "(uid, cs) \<in> set (AllComponents c)"
    by (rule map_of_SomeD)
  then show "length (AllComponents (UnlistComponent c uid)) < length (AllComponents c)"
    unfolding d AList.delete_eq by (rule length_filter_less) simp
qed

theorem UnlistComponent_noop_safety_witness:
  "IsComponentActive shown_A 0 \<and>
   AllComponents (UnlistComponent shown_A 0) = AllComponents shown_A \<and>
   CurrentRendered (UnlistComponent shown_A 0) = CurrentRendered shown_A \<and>
   GetComponent shown_A 5 = None \<and>
   AllComponents (UnlistComponent shown_A 5) = AllComponents shown_A \<and>
   CurrentRendered (UnlistComponent shown_A 5) = CurrentRendered shown_A \<and>
   GetComponent dropped_A 0 \<noteq> None \<and> \<not> IsComponentActive dropped_A 0 \<and>
   AllComponents (UnlistComponent dropped_A 0) = [] \<and>
   GetComponent (UnlistComponent dropped_A 0) 0 = None"
proof -
  have act: "IsComponentActive shown_A 0"
    by (simp add: shown_A_eq IsComponentActive_def GetComponent_def GetRendered_def)
  have absent: "GetComponent shown_A 5 = None"
    by (simp add: shown_A_eq GetComponent_def)
  have det: "GetComponent dropped_A 0 \<noteq> None \<and> \<not> IsComponentActive dropped_A 0"
    by (simp add: dropped_A_eq IsComponentActive_def GetComponent_def GetRendered_def)
  have del: "AList.delete 0 (AllComponents dropped_A) = []"
    by (simp add: dropped_A_eq)
  show ?thesis
    using act absent det del
      UnlistComponent_noop_safety [of shown_A 0]
      UnlistComponent_noop_safety [of shown_A 5]
      UnlistComponent_noop_safety [of dropped_A 0]
    by simp
qed

text \<open>
  C7, as the code has it. \<open>UnlistComponent\<close> invokes the registered notifier exactly when
  the identity is not active: after deleting an entry that is not active, and also when
  the identity names no entry. A call on an active identity does not invoke it.
\<close>

theorem UnlistComponent_notifies:
  "UpdaterCalls (UnlistComponent c uid) =
     (if IsComponentActive c uid then UpdaterCalls c else UpdaterCalls c @ [Updater c])"
  by (simp add: UnlistComponent_def Let_def RemoveRenderedByUID_fields)

text \<open>
  C7, as stated, fails: on the new controller, where the identity 7 names no entry, the
  call removes nothing and still invokes the notifier.
\<close>

theorem UnlistComponent_notifies_counterexample:
  "GetComponent new_LifetimeController 7 = None \<and>
   AllComponents (UnlistComponent new_LifetimeController 7) =
     AllComponents new_LifetimeController \<and>
   UpdaterCalls new_LifetimeController = [] \<and>
   UpdaterCalls (UnlistComponent new_LifetimeController 7) = [DefaultUpdater]"
  by (simp add: UnlistComponent_def Let_def RemoveRenderedByUID_def IsComponentActive_def
      GetComponent_def new_LifetimeController_def)

section \<open>Hooks on props without the markers\<close>

text \<open>
  C9. On a props table that carries neither marker, \<open>useIntrinsicData\<close> returns
  \<open>undefined\<close>, and each of the four hooks destructures that result before it tests
  anything: \<open>useComponentIsActive\<close> raises instead of returning true, and the removal
  hooks raise the same runtime error, never reaching their own \<open>throw\<close>.
\<close>

theorem hooks_without_token:
  "useIntrinsicData empty_props = None \<and>
   useComponentIsActive new_LifetimeController empty_props = Inl TypeError \<and>
   useComponentLifetime new_LifetimeController empty_props = Inl TypeError \<and>
   useDeferLifetime new_LifetimeController empty_props = Inl TypeError \<and>
   useLifetimeAsync new_LifetimeController empty_props = Inl TypeError"
  by (simp add: useIntrinsicData_def useComponentIsActive_def useComponentLifetime_def
      useDeferLifetime_def useLifetimeAsync_def destructure_def empty_props_def)

end
